theory Spec2Isabelle
  imports Complex_Main "HOL-Library.Monad_Syntax"
begin

section \<open>Data model of \<open>qan::Graph\<close> (src/src/qanGraph.cpp)\<close>

text \<open>
  Objects are identified by their address. A raw pointer, a \<open>QPointer\<close> and the result
  of \<open>weak_ptr::lock().get()\<close> are values of \<open>ptr option\<close>, with \<open>None\<close> for
  \<open>nullptr\<close>. The values of \<open>qreal\<close> (a double) are real numbers; the infinities
  and NaN are not values of the model. Comparisons are exact. The additions that mint z
  values (\<open>_maxZ += 1.\<close>, \<open>maxZ + 1.\<close>) round to the nearest double, ties to even,
  as \<open>qreal_add\<close> below; the geometry of the alignment functions is kept in exact
  arithmetic.
\<close>

type_synonym ptr = nat

type_synonym qreal = real

text \<open>\<open>std::numeric_limits<qreal>::min()\<close>: the smallest positive normalised double.\<close>

definition qreal_min :: qreal where
  "qreal_min = 1 / 2 ^ 1022"

text \<open>\<open>std::numeric_limits<qreal>::max()\<close>: the largest finite double.\<close>

definition qreal_max :: qreal where
  "qreal_max = (2 - 1 / 2 ^ 52) * 2 ^ 1023"

text \<open>
  Rounding to the nearest double: a double has 53 significant bits, so the spacing of
  the doubles around \<open>v\<close> is \<open>2 ^ (e - 52)\<close> for \<open>2 ^ e \<le> \<bar>v\<bar> < 2 ^ (e + 1)\<close>, with the
  exponent no less than -1022; a value halfway between two doubles goes to the one with
  the even significand.
\<close>

definition round_half_even :: "real \<Rightarrow> int" where
  "round_half_even q =
     (if q - of_int \<lfloor>q\<rfloor> < 1 / 2 then \<lfloor>q\<rfloor>
      else if 1 / 2 < q - of_int \<lfloor>q\<rfloor> then \<lfloor>q\<rfloor> + 1
      else if even \<lfloor>q\<rfloor> then \<lfloor>q\<rfloor> else \<lfloor>q\<rfloor> + 1)"

definition qreal_ulp :: "qreal \<Rightarrow> qreal" where
  "qreal_ulp v = 2 powi (max \<lfloor>log 2 \<bar>v\<bar>\<rfloor> (- 1022) - 52)"

definition qreal_round :: "real \<Rightarrow> qreal" where
  "qreal_round v =
     (if v = 0 then 0 else qreal_ulp v * of_int (round_half_even (v / qreal_ulp v)))"

text \<open>The sum of two doubles, as the operator \<open>+\<close> of the source computes it.\<close>

definition qreal_add :: "qreal \<Rightarrow> qreal \<Rightarrow> qreal" where
  "qreal_add a b = qreal_round (a + b)"

datatype SelectionPolicy = NoSelection | SelectOnClick | SelectOnCtrlClick

text \<open>
  The dynamic type of a \<open>QQuickItem\<close>, as \<open>qobject_cast\<close> sees it. A
  \<open>qan::GroupItem\<close> is a \<open>qan::NodeItem\<close> as well (\<open>sendToFront\<close> casts one item
  to both).
\<close>

datatype item_kind = PlainItem | NodeItem | GroupItem

record item =
  kind :: item_kind
  parentItem :: "ptr option"
  item_z :: qreal
  item_x :: qreal
  item_y :: qreal
  item_width :: qreal
  item_height :: qreal
  getSelected :: bool
  getSelectionItem :: bool
  getNode :: "ptr option"
  getGroup :: "ptr option"
  getContainer :: "ptr option"

text \<open>
  A \<open>qan::Node\<close>; a \<open>qan::Group\<close> is a node with \<open>isGroup\<close> set, whose
  \<open>get_nodes\<close> are its members. The adjacency lists and the owning group are weak
  pointers.
\<close>

record node =
  isGroup :: bool
  get_in_nodes :: "ptr list"
  get_out_nodes :: "ptr list"
  get_nodes :: "ptr list"
  get_group :: "ptr option"
  node_item :: "ptr option"

text \<open>A \<open>QQmlComponent\<close>: its status, and the object \<open>beginCreate\<close> yields.\<close>

record component =
  isReady :: bool
  isError :: bool
  beginCreate :: "(ptr \<times> item) option"

text \<open>
  The graph: \<open>store\<close> holds the live nodes and groups that the topology owns, in
  insertion order; \<open>visuals\<close> holds the live visual items; the other fields are the
  members \<open>_containerItem\<close>, \<open>_selectedNodes\<close>, \<open>_selectedGroups\<close>,
  \<open>_selectionPolicy\<close>, \<open>_maxZ\<close>, \<open>_nodeDelegate\<close>, \<open>_selectionDelegate\<close>
  (whether it yields a selection item) and whether \<open>qmlContext(this)\<close> is available.
\<close>

record graph =
  store :: "(ptr \<times> node) list"
  visuals :: "(ptr \<times> item) list"
  containerItem :: "ptr option"
  selectedNodes :: "ptr list"
  selectedGroups :: "ptr list"
  selectionPolicy :: SelectionPolicy
  maxZ :: qreal
  nodeDelegate :: "component option"
  selectionDelegate :: bool
  qmlContext :: bool

definition lookup_node :: "graph \<Rightarrow> ptr \<Rightarrow> node option" where
  "lookup_node g p = map_of (store g) p"

definition lookup_item :: "graph \<Rightarrow> ptr \<Rightarrow> item option" where
  "lookup_item g i = map_of (visuals g) i"

text \<open>\<open>weak_ptr::lock().get()\<close>: the address while the object is alive, else null.\<close>

definition lock :: "graph \<Rightarrow> ptr \<Rightarrow> ptr option" where
  "lock g p = (case lookup_node g p of None \<Rightarrow> None | Some n \<Rightarrow> Some p)"

text \<open>\<open>primitive.getItem()\<close>: a \<open>QPointer\<close>, null once the item is destroyed.\<close>

definition getItem :: "graph \<Rightarrow> ptr \<Rightarrow> ptr option" where
  "getItem g p =
     (case lookup_node g p of
        None \<Rightarrow> None
      | Some n \<Rightarrow>
          (case node_item n of
             None \<Rightarrow> None
           | Some i \<Rightarrow> (case lookup_item g i of None \<Rightarrow> None | Some it \<Rightarrow> Some i)))"

fun modify_item :: "ptr \<Rightarrow> (item \<Rightarrow> item) \<Rightarrow> (ptr \<times> item) list \<Rightarrow> (ptr \<times> item) list" where
  "modify_item i f [] = []"
| "modify_item i f ((k, v) # vs) =
     (if k = i then (k, f v) # modify_item i f vs else (k, v) # modify_item i f vs)"

definition update_item :: "ptr \<Rightarrow> (item \<Rightarrow> item) \<Rightarrow> graph \<Rightarrow> graph" where
  "update_item i f g = g\<lparr>visuals := modify_item i f (visuals g)\<rparr>"

section \<open>Selection management\<close>

text \<open>The template parameter \<open>Primitive_t\<close> of the selection helpers.\<close>

datatype primitive_t = Node_t | Group_t

definition selectedPrimitives :: "primitive_t \<Rightarrow> graph \<Rightarrow> ptr list" where
  "selectedPrimitives t g = (case t of Node_t \<Rightarrow> selectedNodes g | Group_t \<Rightarrow> selectedGroups g)"

definition set_selectedPrimitives :: "primitive_t \<Rightarrow> ptr list \<Rightarrow> graph \<Rightarrow> graph" where
  "set_selectedPrimitives t ps g =
     (case t of Node_t \<Rightarrow> g\<lparr>selectedNodes := ps\<rparr> | Group_t \<Rightarrow> g\<lparr>selectedGroups := ps\<rparr>)"

text \<open>\<open>Graph::removeFromSelection(QQuickItem*)\<close>, lines 1212-1225.\<close>

definition removeFromSelection_item :: "ptr option \<Rightarrow> graph \<Rightarrow> graph" where
  "removeFromSelection_item item g =
     (case item of
        None \<Rightarrow> g
      | Some i \<Rightarrow>
          (case lookup_item g i of
             None \<Rightarrow> g
           | Some it \<Rightarrow>
               (case (if kind it = PlainItem then None else getNode it) of
                  Some n \<Rightarrow> g\<lparr>selectedNodes := removeAll n (selectedNodes g)\<rparr>
                | None \<Rightarrow>
                    (case (if kind it = GroupItem then getGroup it else None) of
                       Some gr \<Rightarrow> g\<lparr>selectedGroups := removeAll gr (selectedGroups g)\<rparr>
                     | None \<Rightarrow> g))))"

text \<open>
  Modelled from the spec: \<open>qan::Selectable::setSelected\<close> is not in src/. By the notes
  at lines 1126 and 1157 ("graph.removeFromSelection() is called from primitive
  qan::Selectable::setSelected()") and section 4.3 of the spec, it stores the flag of the
  item and, when the item is deselected, removes its primitive from the selection through
  \<open>Graph::removeFromSelection(QQuickItem*)\<close>.
\<close>

definition setSelected :: "ptr \<Rightarrow> bool \<Rightarrow> graph \<Rightarrow> graph" where
  "setSelected i sel g =
     update_item i (\<lambda>it. it\<lparr>getSelected := sel\<rparr>)
       (if sel then g else removeFromSelection_item (Some i) g)"

text \<open>
  \<open>addToSelectionImpl\<close>, lines 1180-1195. The selection decoration is created from
  \<open>_selectionDelegate\<close> when the item has none; the creation may yield null.
\<close>

definition addToSelectionImpl :: "primitive_t \<Rightarrow> ptr \<Rightarrow> graph \<Rightarrow> graph" where
  "addToSelectionImpl t p g =
     (if p \<in> set (selectedPrimitives t g) then g
      else
        (let g1 = set_selectedPrimitives t (selectedPrimitives t g @ [p]) g
         in case getItem g1 p of
              None \<Rightarrow> g1
            | Some i \<Rightarrow>
                setSelected i True
                  (update_item i
                     (\<lambda>it. if getSelectionItem it then it
                           else it\<lparr>getSelectionItem := selectionDelegate g1\<rparr>) g1)))"

text \<open>One step of the loops of \<open>clearSelection\<close>: deselect the item of a primitive.\<close>

definition deselect_primitive :: "ptr \<Rightarrow> graph \<Rightarrow> graph" where
  "deselect_primitive p g = (case getItem g p of None \<Rightarrow> g | Some i \<Rightarrow> setSelected i False g)"

text \<open>
  \<open>Graph::clearSelection\<close>, lines 1238-1263: both loops run over a copy of the
  container, which is cleared after its loop.
\<close>

definition clearSelection :: "graph \<Rightarrow> graph" where
  "clearSelection g =
     (let selectedNodesCopy = selectedNodes g;
          g1 = (fold deselect_primitive selectedNodesCopy g)\<lparr>selectedNodes := []\<rparr>;
          selectedGroupsCopy = selectedGroups g1
      in (fold deselect_primitive selectedGroupsCopy g1)\<lparr>selectedGroups := []\<rparr>)"



text \<open>\<open>primitive.getItem()->getSelected()\<close> for the item \<open>i\<close>.\<close>

definition item_getSelected :: "graph \<Rightarrow> ptr \<Rightarrow> bool" where
  "item_getSelected g i = (case lookup_item g i of None \<Rightarrow> False | Some it \<Rightarrow> getSelected it)"

text \<open>
  \<open>impl::selectPrimitive\<close>, lines 1110-1145; \<open>ctrlPressed\<close> is
  \<open>modifiers & Qt::ControlModifier\<close>. The result is the returned flag and the graph.
\<close>

definition selectPrimitive :: "primitive_t \<Rightarrow> ptr \<Rightarrow> bool \<Rightarrow> graph \<Rightarrow> bool \<times> graph" where
  "selectPrimitive t p ctrlPressed g =
     (if selectionPolicy g = NoSelection then (False, g)
      else
        (case getItem g p of
           None \<Rightarrow> (False, g)
         | Some i \<Rightarrow>
             (let (sel, g1) =
                (if item_getSelected g i
                 then (False, if ctrlPressed then setSelected i False g else g)
                 else
                   (case selectionPolicy g of
                      SelectOnClick \<Rightarrow> (True, if ctrlPressed then g else clearSelection g)
                    | SelectOnCtrlClick \<Rightarrow> (ctrlPressed, g)
                    | NoSelection \<Rightarrow> (False, g)))
              in if sel then (True, addToSelectionImpl t p g1) else (False, g1))))"

text \<open>\<open>impl::setPrimitiveSelected\<close>, lines 1149-1161.\<close>

definition setPrimitiveSelected :: "primitive_t \<Rightarrow> ptr \<Rightarrow> bool \<Rightarrow> graph \<Rightarrow> graph" where
  "setPrimitiveSelected t p sel g =
     (case getItem g p of
        None \<Rightarrow> g
      | Some i \<Rightarrow>
          (let g1 = setSelected i sel g
           in if sel then addToSelectionImpl t p g1 else g1))"

text \<open>\<open>Graph::selectNode\<close>, \<open>Graph::setNodeSelected\<close> and \<open>Graph::selectGroup\<close>.\<close>

definition selectNode :: "ptr \<Rightarrow> bool \<Rightarrow> graph \<Rightarrow> bool \<times> graph" where
  "selectNode n ctrlPressed g = selectPrimitive Node_t n ctrlPressed g"

definition setNodeSelected :: "ptr \<Rightarrow> bool \<Rightarrow> graph \<Rightarrow> graph" where
  "setNodeSelected n sel g = setPrimitiveSelected Node_t n sel g"

definition selectGroup :: "ptr \<Rightarrow> bool \<Rightarrow> graph \<Rightarrow> bool \<times> graph" where
  "selectGroup gr ctrlPressed g = selectPrimitive Group_t gr ctrlPressed g"

section \<open>Stacking management\<close>

definition setZ :: "ptr \<Rightarrow> qreal \<Rightarrow> graph \<Rightarrow> graph" where
  "setZ i v g = update_item i (\<lambda>it. it\<lparr>item_z := v\<rparr>) g"

text \<open>\<open>Graph::setMaxZ\<close>, \<open>Graph::nextMaxZ\<close> and \<open>Graph::updateMaxZ\<close>, lines 1602-1619.\<close>

definition setMaxZ :: "qreal \<Rightarrow> graph \<Rightarrow> graph" where
  "setMaxZ v g = g\<lparr>maxZ := v\<rparr>"

definition nextMaxZ :: "graph \<Rightarrow> qreal \<times> graph" where
  "nextMaxZ g = (qreal_add (maxZ g) 1, g\<lparr>maxZ := qreal_add (maxZ g) 1\<rparr>)"

definition updateMaxZ :: "qreal \<Rightarrow> graph \<Rightarrow> graph" where
  "updateMaxZ v g = (if v > maxZ g then setMaxZ v g else g)"

text \<open>\<open>item->childItems()\<close>: the live items whose parent is \<open>p\<close>; none of them is null.\<close>

definition childItems :: "graph \<Rightarrow> ptr \<Rightarrow> item list" where
  "childItems g p = map snd (filter (\<lambda>(k, it). parentItem it = Some p) (visuals g))"

text \<open>
  \<open>Graph::maxChildsZ\<close>, lines 1621-1634. The running maximum starts at
  \<open>std::numeric_limits<qreal>::min()\<close>; \<open>hasChild\<close> is set by any child.
\<close>

definition maxChildsZ :: "ptr option \<Rightarrow> graph \<Rightarrow> qreal" where
  "maxChildsZ item g =
     (case item of
        None \<Rightarrow> 0
      | Some p \<Rightarrow>
          (let childs = childItems g p;
               hasChild = (childs \<noteq> []);
               m = fold (\<lambda>childItem m. max m (item_z childItem)) childs qreal_min
           in if hasChild then m else 0))"

text \<open>\<open>Graph::findMaxZ\<close>, lines 1595-1599.\<close>

definition findMaxZ :: "graph \<Rightarrow> graph" where
  "findMaxZ g = setMaxZ (maxChildsZ (containerItem g) g) g"

text \<open>
  The accessors \<open>qan::Node::getGroup\<close> and \<open>qan::Group::getGroupItem\<close> belong to
  the class declarations, which are not in src/. They read the fields above: the owning
  group, locked, and the item of a group, cast to a group item.
\<close>

definition node_getGroup :: "graph \<Rightarrow> ptr \<Rightarrow> ptr option" where
  "node_getGroup g p =
     (case lookup_node g p of
        None \<Rightarrow> None
      | Some n \<Rightarrow> (case get_group n of None \<Rightarrow> None | Some gr \<Rightarrow> lock g gr))"

definition getGroupItem :: "graph \<Rightarrow> ptr \<Rightarrow> ptr option" where
  "getGroupItem g p =
     (case getItem g p of
        None \<Rightarrow> None
      | Some i \<Rightarrow>
          (case lookup_item g i of
             None \<Rightarrow> None
           | Some it \<Rightarrow> if kind it = GroupItem then Some i else None))"

text \<open>
  The lambda \<open>impl\<close> of \<open>collectGroups_rec\<close>, lines 1540-1551, called on a non-null
  group item: it pushes the item and recurses on the item of the parent group. The
  recursion does not return when the nesting of groups is cyclic; that is the value
  \<open>None\<close>.
\<close>

partial_function (option) collectGroups_impl :: "graph \<Rightarrow> ptr list \<Rightarrow> ptr \<Rightarrow> ptr list option" where
  "collectGroups_impl g groups groupItem =
     (case (case (case lookup_item g groupItem of
                    None \<Rightarrow> None
                  | Some it \<Rightarrow> (case getGroup it of None \<Rightarrow> None | Some gr \<Rightarrow> node_getGroup g gr)) of
              None \<Rightarrow> None
            | Some parentGroup \<Rightarrow> getGroupItem g parentGroup) of
        None \<Rightarrow> Some (groups @ [groupItem])
      | Some parentGroupItem \<Rightarrow> collectGroups_impl g (groups @ [groupItem]) parentGroupItem)"

definition collectGroups_rec :: "graph \<Rightarrow> ptr option \<Rightarrow> ptr list option" where
  "collectGroups_rec g groupItem =
     (case groupItem of None \<Rightarrow> Some [] | Some i \<Rightarrow> collectGroups_impl g [] i)"

text \<open>The body of the loop over the collected groups, lines 1578-1591.\<close>

definition sendToFront_group :: "ptr \<Rightarrow> ptr \<Rightarrow> graph \<Rightarrow> graph" where
  "sendToFront_group graphContainerItem groupItem g =
     (case lookup_item g groupItem of
        None \<Rightarrow> g
      | Some it \<Rightarrow>
          (case parentItem it of
             None \<Rightarrow> g
           | Some groupParentItem \<Rightarrow>
               if groupParentItem = graphContainerItem
               then (let (v, g1) = nextMaxZ g in setZ groupItem v g1)
               else (let m = maxChildsZ (Some groupParentItem) g
                     in setZ groupItem (qreal_add m 1) (updateMaxZ (qreal_add m 1) g))))"

text \<open>
  \<open>Graph::sendToFront\<close>, lines 1521-1593. \<open>nodeItem\<close> is non-null for a node item and
  for a group item, \<open>groupItem\<close> for a group item only.
\<close>

definition sendToFront :: "ptr option \<Rightarrow> graph \<Rightarrow> graph option" where
  "sendToFront item g =
     (case item of
        None \<Rightarrow> Some g
      | Some i \<Rightarrow>
          (case lookup_item g i of
             None \<Rightarrow> Some g
           | Some it \<Rightarrow>
               if kind it = PlainItem then Some g
               else
                 (case containerItem g of
                    None \<Rightarrow> Some g
                  | Some graphContainerItem \<Rightarrow>
                      if kind it = NodeItem
                      then Some (let (v, g1) = nextMaxZ g in setZ i v g1)
                      else if parentItem it = Some graphContainerItem
                      then Some (let (v, g1) = nextMaxZ g in setZ i v g1)
                      else
                        (case collectGroups_rec g (Some i) of
                           None \<Rightarrow> None
                         | Some groups \<Rightarrow>
                             Some (fold (sendToFront_group graphContainerItem) groups g)))))"

section \<open>Alignment\<close>

text \<open>
  The functions of lines 1294-1357 on the items that the vector designates (distinct
  items); the result lists the items after the calls of \<open>setX\<close> or \<open>setY\<close>.
\<close>

definition alignHorizontalCenter :: "item list \<Rightarrow> item list" where
  "alignHorizontalCenter items =
     (if length items \<le> 1 then items
      else
        (let maxRight = fold (\<lambda>it m. max m (item_x it + item_width it)) items qreal_min;
             minLeft = fold (\<lambda>it m. min m (item_x it)) items qreal_max;
             center = minLeft + (maxRight - minLeft) / 2
         in map (\<lambda>it. it\<lparr>item_x := center - item_width it / 2\<rparr>) items))"

definition alignRight :: "item list \<Rightarrow> item list" where
  "alignRight items =
     (if length items \<le> 1 then items
      else
        (let maxRight = fold (\<lambda>it m. max m (item_x it + item_width it)) items qreal_min
         in map (\<lambda>it. it\<lparr>item_x := maxRight - item_width it\<rparr>) items))"

definition alignLeft :: "item list \<Rightarrow> item list" where
  "alignLeft items =
     (if length items \<le> 1 then items
      else
        (let minLeft = fold (\<lambda>it m. min m (item_x it)) items qreal_max
         in map (\<lambda>it. it\<lparr>item_x := minLeft\<rparr>) items))"

definition alignTop :: "item list \<Rightarrow> item list" where
  "alignTop items =
     (if length items \<le> 1 then items
      else
        (let minTop = fold (\<lambda>it m. min m (item_y it)) items qreal_max
         in map (\<lambda>it. it\<lparr>item_y := minTop\<rparr>) items))"

definition alignBottom :: "item list \<Rightarrow> item list" where
  "alignBottom items =
     (if length items \<le> 1 then items
      else
        (let maxBottom = fold (\<lambda>it m. max m (item_y it + item_height it)) items qreal_min
         in map (\<lambda>it. it\<lparr>item_y := maxBottom - item_height it\<rparr>) items))"

section \<open>Topology algorithms\<close>

text \<open>
  A range-for loop whose body threads the state and may fail to return: the loop stops
  at the first body that does not return.
\<close>

fun for_each :: "('a \<Rightarrow> 's \<Rightarrow> 's option) \<Rightarrow> 'a list \<Rightarrow> 's \<Rightarrow> 's option" where
  "for_each body [] s = Some s"
| "for_each body (x # xs) s =
     (case body x s of None \<Rightarrow> None | Some s' \<Rightarrow> for_each body xs s')"

text \<open>
  What a traversal reads from a node: \<open>isGroup()\<close>, and the locked entries of
  \<open>get_out_nodes()\<close>, \<open>get_in_nodes()\<close> and, for a group, \<open>get_nodes()\<close>.
\<close>

definition node_isGroup :: "graph \<Rightarrow> ptr \<Rightarrow> bool" where
  "node_isGroup g p = (case lookup_node g p of None \<Rightarrow> False | Some n \<Rightarrow> isGroup n)"

definition out_nodes_of :: "graph \<Rightarrow> ptr \<Rightarrow> ptr option list" where
  "out_nodes_of g p =
     (case lookup_node g p of None \<Rightarrow> [] | Some n \<Rightarrow> map (lock g) (get_out_nodes n))"

definition in_nodes_of :: "graph \<Rightarrow> ptr \<Rightarrow> ptr option list" where
  "in_nodes_of g p =
     (case lookup_node g p of None \<Rightarrow> [] | Some n \<Rightarrow> map (lock g) (get_in_nodes n))"

definition group_nodes_of :: "graph \<Rightarrow> ptr \<Rightarrow> ptr option list" where
  "group_nodes_of g p =
     (case lookup_node g p of None \<Rightarrow> [] | Some n \<Rightarrow> map (lock g) (get_nodes n))"

text \<open>
  \<open>Graph::collectDfsRec\<close>, lines 1677-1698. The state is the pair of \<open>marks\<close> and
  \<open>childs\<close>. The first argument bounds the depth of the recursion: the function
  returns \<open>None\<close> when the bound is reached.
\<close>

primrec collectDfsRec ::
  "nat \<Rightarrow> graph \<Rightarrow> bool \<Rightarrow> ptr option \<Rightarrow> ptr set \<times> ptr list \<Rightarrow> (ptr set \<times> ptr list) option" where
  "collectDfsRec 0 g collectGroup = (\<lambda>node st. None)"
| "collectDfsRec (Suc depth) g collectGroup =
     (\<lambda>node (marks, childs).
        case node of
          None \<Rightarrow> Some (marks, childs)
        | Some n \<Rightarrow>
            if n \<in> marks then Some (marks, childs)
            else
              (case (if collectGroup \<and> node_isGroup g n
                     then for_each (collectDfsRec depth g collectGroup) (group_nodes_of g n)
                            (insert n marks, childs @ [n])
                     else Some (insert n marks, childs @ [n])) of
                 None \<Rightarrow> None
               | Some st \<Rightarrow> for_each (collectDfsRec depth g collectGroup) (out_nodes_of g n) st))"

text \<open>
  The depth of the recursion never exceeds the number of live nodes, since every level
  marks a node that was not marked.
\<close>

definition dfs_depth :: "graph \<Rightarrow> nat" where
  "dfs_depth g = Suc (length (store g))"

text \<open>\<open>Graph::collectDfs(const qan::Node&, bool)\<close>, lines 1660-1675, with its marks.\<close>

definition collectDfs_state :: "graph \<Rightarrow> ptr \<Rightarrow> bool \<Rightarrow> (ptr set \<times> ptr list) option" where
  "collectDfs_state g node collectGroup =
     (case (if collectGroup \<and> node_isGroup g node
            then for_each (collectDfsRec (dfs_depth g) g collectGroup) (group_nodes_of g node) ({}, [])
            else Some ({}, [])) of
        None \<Rightarrow> None
      | Some st \<Rightarrow> for_each (collectDfsRec (dfs_depth g) g collectGroup) (out_nodes_of g node) st)"

definition collectDfs :: "graph \<Rightarrow> ptr \<Rightarrow> bool \<Rightarrow> ptr list option" where
  "collectDfs g node collectGroup = map_option snd (collectDfs_state g node collectGroup)"

text \<open>\<open>Graph::collectAncestorsDfsRec\<close>, lines 1732-1756.\<close>

primrec collectAncestorsDfsRec ::
  "nat \<Rightarrow> graph \<Rightarrow> bool \<Rightarrow> ptr option \<Rightarrow> ptr set \<times> ptr list \<Rightarrow> (ptr set \<times> ptr list) option" where
  "collectAncestorsDfsRec 0 g collectGroup = (\<lambda>node st. None)"
| "collectAncestorsDfsRec (Suc depth) g collectGroup =
     (\<lambda>node (marks, parents).
        case node of
          None \<Rightarrow> Some (marks, parents)
        | Some n \<Rightarrow>
            if n \<in> marks then Some (marks, parents)
            else
              (case (if collectGroup \<and> node_isGroup g n
                     then for_each (collectAncestorsDfsRec depth g collectGroup) (group_nodes_of g n)
                            (insert n marks, parents @ [n])
                     else Some (insert n marks, parents @ [n])) of
                 None \<Rightarrow> None
               | Some st1 \<Rightarrow>
                   (case collectAncestorsDfsRec depth g collectGroup (node_getGroup g n) st1 of
                      None \<Rightarrow> None
                    | Some st2 \<Rightarrow>
                        for_each (collectAncestorsDfsRec depth g collectGroup) (in_nodes_of g n) st2)))"

text \<open>
  \<open>Graph::collectAncestorsDfs\<close>, lines 1708-1730. The walk of the owning group of the
  start node is commented out in the source (lines 1721-1726).
\<close>

definition collectAncestorsDfs_state :: "graph \<Rightarrow> ptr \<Rightarrow> bool \<Rightarrow> (ptr set \<times> ptr list) option" where
  "collectAncestorsDfs_state g node collectGroup =
     (case (if collectGroup \<and> node_isGroup g node
            then for_each (collectAncestorsDfsRec (dfs_depth g) g collectGroup)
                   (group_nodes_of g node) ({}, [])
            else Some ({}, [])) of
        None \<Rightarrow> None
      | Some st \<Rightarrow>
          for_each (collectAncestorsDfsRec (dfs_depth g) g collectGroup) (in_nodes_of g node) st)"

definition collectAncestorsDfs :: "graph \<Rightarrow> ptr \<Rightarrow> bool \<Rightarrow> ptr list option" where
  "collectAncestorsDfs g node collectGroup =
     map_option snd (collectAncestorsDfs_state g node collectGroup)"

section \<open>Topology store\<close>

datatype error = BadWeakPtr | TopologyError | QanError

text \<open>
  \<open>shared_from_this()\<close>: throws \<open>std::bad_weak_ptr\<close> for an object that no shared
  pointer owns, that is, one that is not in the store.
\<close>

definition shared_from_this :: "graph \<Rightarrow> ptr \<Rightarrow> error + ptr" where
  "shared_from_this g p = (case lookup_node g p of None \<Rightarrow> Inl BadWeakPtr | Some n \<Rightarrow> Inr p)"

fun modify_node :: "ptr \<Rightarrow> (node \<Rightarrow> node) \<Rightarrow> (ptr \<times> node) list \<Rightarrow> (ptr \<times> node) list" where
  "modify_node p f [] = []"
| "modify_node p f ((k, v) # vs) =
     (if k = p then (k, f v) # modify_node p f vs else (k, v) # modify_node p f vs)"

definition update_node :: "ptr \<Rightarrow> (node \<Rightarrow> node) \<Rightarrow> graph \<Rightarrow> graph" where
  "update_node p f g = g\<lparr>store := modify_node p f (store g)\<rparr>"


text \<open>
  Modelled from the spec: \<open>gtpo::graph::remove_node\<close> is not in src/. By sections 3
  and 4.1 every edge incident to the node is removed, so that no adjacency list names
  it, and the node is destroyed.
\<close>

definition gtpo_remove_node :: "ptr \<Rightarrow> graph \<Rightarrow> graph" where
  "gtpo_remove_node p g =
     g\<lparr>store :=
         map (\<lambda>(k, n). (k, n\<lparr>get_in_nodes := removeAll p (get_in_nodes n),
                              get_out_nodes := removeAll p (get_out_nodes n)\<rparr>))
           (filter (\<lambda>(k, n). k \<noteq> p) (store g))\<rparr>"

text \<open>
  Modelled from the spec: \<open>gtpo::graph::remove_group\<close> is not in src/. By section 4.1
  the members of the group become un-grouped and keep their edges, and the group is
  removed as a node.
\<close>

definition gtpo_remove_group :: "ptr \<Rightarrow> graph \<Rightarrow> graph" where
  "gtpo_remove_group gr g =
     gtpo_remove_node gr
       (g\<lparr>store :=
            map (\<lambda>(k, n). (k, if get_group n = Some gr then n\<lparr>get_group := None\<rparr> else n))
              (store g)\<rparr>)"

text \<open>
  Modelled from the spec: \<open>gtpo::graph::group_node\<close> is not in src/. By section 4.1 it
  fails when the node or the group is not owned by the store; otherwise it detaches the
  node from any prior group and attaches it to the member set of the group.
\<close>

definition gtpo_group_node :: "ptr \<Rightarrow> ptr \<Rightarrow> graph \<Rightarrow> error + graph" where
  "gtpo_group_node n gr g =
     (if lookup_node g n = None \<or> lookup_node g gr = None then Inl TopologyError
      else
        Inr (update_node gr (\<lambda>x. x\<lparr>get_nodes := get_nodes x @ [n]\<rparr>)
               (update_node n (\<lambda>x. x\<lparr>get_group := Some gr\<rparr>)
                  (g\<lparr>store := map (\<lambda>(k, x). (k, x\<lparr>get_nodes := removeAll n (get_nodes x)\<rparr>))
                                (store g)\<rparr>))))"

text \<open>
  Modelled from the spec: \<open>qan::GroupItem::groupNodeItem\<close> and
  \<open>qan::GroupItem::ungroupNodeItem\<close> are not in src/. The first makes the container of
  the group item the parent of the node item, the second gives the node item back to the
  container item of the graph (comment at line 964); the mapping of coordinates belongs
  to the scene and is left out.
\<close>

definition groupNodeItem :: "ptr \<Rightarrow> ptr \<Rightarrow> graph \<Rightarrow> graph" where
  "groupNodeItem groupItem nodeItem g =
     (case lookup_item g groupItem of
        None \<Rightarrow> g
      | Some gi \<Rightarrow> update_item nodeItem (\<lambda>it. it\<lparr>parentItem := getContainer gi\<rparr>) g)"

definition ungroupNodeItem :: "ptr \<Rightarrow> ptr \<Rightarrow> graph \<Rightarrow> graph" where
  "ungroupNodeItem groupItem nodeItem g =
     update_item nodeItem (\<lambda>it. it\<lparr>parentItem := containerItem g\<rparr>) g"



text \<open>
  \<open>Graph::removeNode\<close>, lines 656-672; \<open>std::bad_weak_ptr\<close> is caught after the node
  has left the selection.
\<close>

definition removeNode :: "ptr option \<Rightarrow> graph \<Rightarrow> graph" where
  "removeNode node g =
     (case node of
        None \<Rightarrow> g
      | Some p \<Rightarrow>
          (let g1 = (if p \<in> set (selectedNodes g)
                     then g\<lparr>selectedNodes := removeAll p (selectedNodes g)\<rparr> else g)
           in case shared_from_this g1 p of
                Inl e \<Rightarrow> g1
              | Inr sp \<Rightarrow> gtpo_remove_node sp g1))"

text \<open>One step of the loop of \<open>removeGroup\<close>, lines 966-972.\<close>

definition removeGroup_reparent :: "ptr \<Rightarrow> ptr option \<Rightarrow> graph \<Rightarrow> graph" where
  "removeGroup_reparent grp qanNode g =
     (case qanNode of
        None \<Rightarrow> g
      | Some m \<Rightarrow>
          (case getItem g m of
             None \<Rightarrow> g
           | Some nodeItem \<Rightarrow>
               (case getGroupItem g grp of
                  None \<Rightarrow> g
                | Some groupItem \<Rightarrow> ungroupNodeItem groupItem nodeItem g)))"

text \<open>
  \<open>Graph::removeGroup\<close>, lines 959-983. The \<open>std::bad_weak_ptr\<close> of
  \<open>shared_from_this\<close> is not caught.
\<close>

definition removeGroup :: "ptr option \<Rightarrow> graph \<Rightarrow> error + graph" where
  "removeGroup grp g =
     (case grp of
        None \<Rightarrow> Inr g
      | Some gr \<Rightarrow>
          (let g1 = fold (removeGroup_reparent gr) (group_nodes_of g gr) g;
               g2 = (if gr \<in> set (selectedNodes g1)
                     then g1\<lparr>selectedNodes := removeAll gr (selectedNodes g1)\<rparr> else g1)
           in case shared_from_this g2 gr of
                Inl e \<Rightarrow> Inl e
              | Inr nodeGroupPtr \<Rightarrow> Inr (gtpo_remove_group nodeGroupPtr g2)))"

text \<open>
  \<open>Graph::groupNode\<close>, lines 992-1015: every exception of the \<open>try\<close> block is caught
  and answered with \<open>false\<close>.
\<close>

definition groupNode :: "ptr option \<Rightarrow> ptr option \<Rightarrow> bool \<Rightarrow> graph \<Rightarrow> bool \<times> graph" where
  "groupNode grp node transform g =
     (case (grp, node) of
        (Some gr, Some n) \<Rightarrow>
          if gr = n then (False, g)
          else
            (case shared_from_this g n of
               Inl e \<Rightarrow> (False, g)
             | Inr sn \<Rightarrow>
                 (case shared_from_this g gr of
                    Inl e \<Rightarrow> (False, g)
                  | Inr sg \<Rightarrow>
                      (case gtpo_group_node sn sg g of
                         Inl e \<Rightarrow> (False, g)
                       | Inr g1 \<Rightarrow>
                           (True,
                            if node_getGroup g1 n = Some gr
                            then (case getGroupItem g1 gr of
                                    None \<Rightarrow> g1
                                  | Some groupItem \<Rightarrow>
                                      (case getItem g1 n of
                                         None \<Rightarrow> g1
                                       | Some nodeItem \<Rightarrow> groupNodeItem groupItem nodeItem g1))
                            else g1))))
      | _ \<Rightarrow> (False, g))"

section \<open>The walk behind both collectors\<close>

text \<open>
  \<open>collectDfsRec\<close> and \<open>collectAncestorsDfsRec\<close> differ in the nodes they visit
  from a node only. The walk over a successor function states what they share; both are
  proved equal to it below, and the proofs are made once, on the walk.
\<close>

primrec walk ::
  "(ptr \<Rightarrow> ptr option list) \<Rightarrow> nat \<Rightarrow> ptr option \<Rightarrow> ptr set \<times> ptr list \<Rightarrow> (ptr set \<times> ptr list) option" where
  "walk succs 0 = (\<lambda>node st. None)"
| "walk succs (Suc depth) =
     (\<lambda>node (marks, out).
        case node of
          None \<Rightarrow> Some (marks, out)
        | Some n \<Rightarrow>
            if n \<in> marks then Some (marks, out)
            else for_each (walk succs depth) (succs n) (insert n marks, out @ [n]))"

text \<open>The nodes that the two collectors walk from a node, in the order of the source.\<close>

definition dfs_succs :: "graph \<Rightarrow> bool \<Rightarrow> ptr \<Rightarrow> ptr option list" where
  "dfs_succs g collectGroup n =
     (if collectGroup \<and> node_isGroup g n then group_nodes_of g n else []) @ out_nodes_of g n"

definition ancestors_succs :: "graph \<Rightarrow> bool \<Rightarrow> ptr \<Rightarrow> ptr option list" where
  "ancestors_succs g collectGroup n =
     (if collectGroup \<and> node_isGroup g n then group_nodes_of g n else []) @
     node_getGroup g n # in_nodes_of g n"

text \<open>
  What a call of the walk establishes, from the marks \<open>M\<close> and the output \<open>out\<close>:
  it appends distinct, live, so far unmarked nodes and marks them, and every node that
  it appends has all its successors marked in the end.
\<close>

definition walk_post ::
  "(ptr \<Rightarrow> ptr option list) \<Rightarrow> ptr set \<Rightarrow> ptr set \<Rightarrow> ptr list \<Rightarrow> ptr set \<times> ptr list \<Rightarrow> bool" where
  "walk_post succs U M out r =
     (\<exists>new. r = (M \<union> set new, out @ new) \<and> distinct new \<and> set new \<inter> M = {} \<and>
        set new \<subseteq> U \<and> (\<forall>m\<in>set new. \<forall>s. Some s \<in> set (succs m) \<longrightarrow> s \<in> M \<union> set new))"

text \<open>
  The order of the first visits, said without marks threaded through calls and without
  a depth: from the nodes \<open>M\<close> visited so far, going through the list \<open>xs\<close> of nodes to
  visit, a null entry and a visited node are passed over, and a node \<open>n\<close> not yet
  visited is listed, followed by the first visits \<open>new1\<close> made from its successors, then
  by those made from the rest of the list, from the nodes visited by then.
\<close>

inductive first_visit_order ::
  "(ptr \<Rightarrow> ptr option list) \<Rightarrow> ptr option list \<Rightarrow> ptr set \<Rightarrow> ptr list \<Rightarrow> bool"
  for succs :: "ptr \<Rightarrow> ptr option list" where
  finished: "first_visit_order succs [] M []"
| null: "first_visit_order succs xs M new \<Longrightarrow> first_visit_order succs (None # xs) M new"
| visited: "n \<in> M \<Longrightarrow> first_visit_order succs xs M new \<Longrightarrow>
     first_visit_order succs (Some n # xs) M new"
| first_visit: "n \<notin> M \<Longrightarrow> first_visit_order succs (succs n) (insert n M) new1 \<Longrightarrow>
     first_visit_order succs xs (insert n M \<union> set new1) new2 \<Longrightarrow>
     first_visit_order succs (Some n # xs) M (n # new1 @ new2)"

code_pred (modes: i \<Rightarrow> i \<Rightarrow> i \<Rightarrow> o \<Rightarrow> bool) first_visit_order .

text \<open>The edges that a successor function walks: from a node to its live successors.\<close>

definition edges :: "(ptr \<Rightarrow> ptr option list) \<Rightarrow> (ptr \<times> ptr) set" where
  "edges succs = {(a, b). Some b \<in> set (succs a)}"

text \<open>
  The nodes from which \<open>collectAncestorsDfs\<close> starts, lines 1712-1728: the members of
  the start node, for a group with \<open>collectGroup\<close>, then its in-nodes. Its owning group
  is not among them.
\<close>

definition ancestors_starts :: "graph \<Rightarrow> bool \<Rightarrow> ptr \<Rightarrow> ptr option list" where
  "ancestors_starts g collectGroup node =
     (if collectGroup \<and> node_isGroup g node then group_nodes_of g node else []) @
     in_nodes_of g node"

section \<open>Example states\<close>

definition plain_node :: node where
  "plain_node = \<lparr>isGroup = False, get_in_nodes = [], get_out_nodes = [], get_nodes = [],
                  get_group = None, node_item = None\<rparr>"

definition plain_item :: item where
  "plain_item = \<lparr>kind = NodeItem, parentItem = Some 0, item_z = 0, item_x = 0, item_y = 0,
                  item_width = 0, item_height = 0, getSelected = False,
                  getSelectionItem = False, getNode = None, getGroup = None,
                  getContainer = None\<rparr>"

definition empty_graph :: graph where
  "empty_graph = \<lparr>store = [], visuals = [], containerItem = Some 0, selectedNodes = [],
                   selectedGroups = [], selectionPolicy = SelectOnClick, maxZ = 0,
                   nodeDelegate = None, selectionDelegate = True, qmlContext = True\<rparr>"

text \<open>A node without a visual item, as \<open>insertNonVisualNode\<close> leaves it.\<close>

definition nonvisual_graph :: graph where
  "nonvisual_graph = empty_graph\<lparr>store := [(1, plain_node)]\<rparr>"





text \<open>
  A group 10 at the root with its group item 11 (whose container is 12), holding the
  node 20 with the node item 21.
\<close>

definition group_graph :: graph where
  "group_graph = empty_graph
     \<lparr>store := [(10, plain_node\<lparr>isGroup := True, get_nodes := [20], node_item := Some 11\<rparr>),
                (20, plain_node\<lparr>get_group := Some 10, node_item := Some 21\<rparr>)],
      visuals := [(11, plain_item\<lparr>kind := GroupItem, item_z := 1, getGroup := Some 10,
                                  getContainer := Some 12\<rparr>),
                  (21, plain_item\<lparr>parentItem := Some 12, getNode := Some 20\<rparr>)],
      maxZ := 1\<rparr>"

text \<open>The cycle A \<rightarrow> B \<rightarrow> A on the nodes 1 and 2.\<close>

definition cycle_graph :: graph where
  "cycle_graph = empty_graph
     \<lparr>store := [(1, plain_node\<lparr>get_in_nodes := [2], get_out_nodes := [2]\<rparr>),
                (2, plain_node\<lparr>get_in_nodes := [1], get_out_nodes := [1]\<rparr>)]\<rparr>"

text \<open>An edge from the node 2 to the node 1, with the node 2 in the group 3.\<close>

definition ancestors_graph :: graph where
  "ancestors_graph = empty_graph
     \<lparr>store := [(1, plain_node\<lparr>get_in_nodes := [2]\<rparr>),
                (2, plain_node\<lparr>get_out_nodes := [1], get_group := Some 3\<rparr>),
                (3, plain_node\<lparr>isGroup := True, get_nodes := [2]\<rparr>)]\<rparr>"


text \<open>Two items left of the origin: their right edges are at -20 and -30.\<close>

definition negative_items :: "item list" where
  "negative_items = [plain_item\<lparr>item_x := - 30, item_width := 10\<rparr>,
                     plain_item\<lparr>item_x := - 50, item_width := 20\<rparr>]"

section \<open>Basic facts\<close>

lemma qreal_min_pos: "0 < qreal_min"
  by (simp add: qreal_min_def)

text \<open>
  Whole numbers of magnitude up to \<open>2 ^ 53\<close> are doubles and their sums within this
  range are exact; \<open>2 ^ 53 + 1\<close> is not a double and rounds back to \<open>2 ^ 53\<close>.
\<close>

lemma round_half_even_of_int [simp]: "round_half_even (of_int m) = m"
  by (simp add: round_half_even_def)

lemma floor_log2_eqI:
  assumes "2 ^ k \<le> v" and "v < 2 ^ Suc k"
  shows "\<lfloor>log 2 v\<rfloor> = int k"
proof -
  have "(0::real) < 2 ^ k" by simp
  then have "0 < v" using assms(1) by linarith
  moreover have "(2::real) powr real_of_int (int k) = 2 ^ k" by (simp add: powr_realpow)
  moreover have "(2::real) powr real_of_int (int k + 1) = 2 ^ Suc k"
  proof -
    have "real_of_int (int k + 1) = real (Suc k)" by simp
    then show ?thesis by (simp only: powr_realpow zero_less_numeral)
  qed
  moreover have "\<lfloor>log 2 v\<rfloor> = int k \<longleftrightarrow>
      2 powr real_of_int (int k) \<le> v \<and> v < 2 powr real_of_int (int k + 1)"
    using \<open>0 < v\<close> by (intro floor_log_eq_powr_iff) simp_all
  ultimately show ?thesis using assms by (simp only:) 
qed


lemma qreal_ulp_pos: "0 < qreal_ulp v"
  by (simp add: qreal_ulp_def)

lemma qreal_round_exact:
  assumes "v / qreal_ulp v = of_int m"
  shows "qreal_round v = v"
proof (cases "v = 0")
  case True
  then show ?thesis by (simp add: qreal_round_def)
next
  case False
  have "qreal_ulp v * of_int m = v"
    using assms qreal_ulp_pos[of v] by (simp add: field_simps)
  then show ?thesis using False assms by (simp add: qreal_round_def)
qed

lemma int_between_powers:
  assumes "0 < (a::int)"
  shows "\<exists>k. 2 ^ k \<le> a \<and> a < 2 ^ Suc k"
proof -
  have "nat a < 2 ^ nat a" by (rule less_exp)
  then have "\<exists>k. a < 2 ^ k" using assms
    by (metis nat_less_iff of_nat_numeral of_nat_power order_less_imp_le)
  then obtain k where k: "a < 2 ^ k" and least: "\<forall>j<k. \<not> a < 2 ^ j"
    using exists_least_iff[of "\<lambda>k. a < 2 ^ k"] by blast
  have "k \<noteq> 0" using k assms by (cases k) auto
  then obtain j where j: "k = Suc j" by (cases k) auto
  then have "2 ^ j \<le> a" using least by (auto simp: not_less)
  then show ?thesis using k j by blast
qed


lemma qreal_round_of_int:
  assumes "\<bar>n\<bar> \<le> 2 ^ 53"
  shows "qreal_round (of_int n) = of_int n"
proof (cases "n = 0")
  case True
  then show ?thesis by (simp add: qreal_round_def)
next
  case False
  then have "0 < \<bar>n\<bar>" by simp
  then obtain k where k: "2 ^ k \<le> \<bar>n\<bar>" "\<bar>n\<bar> < 2 ^ Suc k"
    using int_between_powers by blast
  have lo: "(2::real) ^ k \<le> \<bar>real_of_int n\<bar>"
  proof -
    have "real_of_int (2 ^ k) \<le> real_of_int \<bar>n\<bar>" using k(1) by (simp only: of_int_le_iff)
    then show ?thesis by simp
  qed
  have hi: "\<bar>real_of_int n\<bar> < (2::real) ^ Suc k"
  proof -
    have "real_of_int \<bar>n\<bar> < real_of_int (2 ^ Suc k)" using k(2) by (simp only: of_int_less_iff)
    then show ?thesis by simp
  qed
  have e: "\<lfloor>log 2 \<bar>real_of_int n\<bar>\<rfloor> = int k" using lo hi by (rule floor_log2_eqI)
  have "(2::int) ^ k \<le> 2 ^ 53" using k(1) assms by (rule order_trans)
  then have k53: "k \<le> 53" by (rule power_le_imp_le_exp[rotated]) simp
  have u: "qreal_ulp (of_int n) = 2 powi (int k - 52)"
    unfolding qreal_ulp_def e by simp
  show ?thesis
  proof (cases "k \<le> 52")
    case True
    have "(2::real) powi (int k - 52) = inverse (2 ^ (52 - k))"
      using True by (simp add: power_int_def nat_diff_distrib' power_one_over inverse_eq_divide)
    then have "real_of_int n / qreal_ulp (of_int n) = of_int (n * 2 ^ (52 - k))"
      unfolding u by (simp add: divide_inverse)
    then show ?thesis by (rule qreal_round_exact)
  next
    case False
    then have k': "k = 53" using k53 by simp
    have "(2::int) ^ 53 \<le> \<bar>n\<bar>" using k(1) unfolding k' .
    then have "\<bar>n\<bar> = 2 ^ 53" using assms by (rule order_antisym[rotated])
    then have "even \<bar>n\<bar>" by simp
    then have "even n" by simp
    then have n: "n = 2 * (n div 2)" by simp
    have p: "(2::real) powi (int k - 52) = 2" unfolding k' by simp
    have "real_of_int n / 2 = real_of_int (n div 2)"
      using n by (metis nonzero_mult_div_cancel_left of_int_mult of_int_numeral zero_neq_numeral)
    then have "real_of_int n / qreal_ulp (of_int n) = of_int (n div 2)"
      unfolding u p .
    then show ?thesis by (rule qreal_round_exact)
  qed
qed

lemma qreal_add_int:
  assumes "\<bar>n + m\<bar> \<le> 2 ^ 53"
  shows "qreal_add (of_int n) (of_int m) = of_int (n + m)"
  using qreal_round_of_int[OF assms] by (simp add: qreal_add_def)


lemma qreal_add_numerals:
  "qreal_add 1 1 = 2" "qreal_add 0 1 = 1" "qreal_add 3 1 = 4"
  using qreal_add_int[of 1 1] qreal_add_int[of 0 1] qreal_add_int[of 3 1] by simp_all





lemma lookup_node_update_item [simp]: "lookup_node (update_item i f g) = lookup_node g"
  by (simp add: lookup_node_def update_item_def fun_eq_iff)

lemma lookup_item_maxZ_update [simp]: "lookup_item (g\<lparr>maxZ := v\<rparr>) = lookup_item g"
  by (simp add: lookup_item_def fun_eq_iff)


lemma containerItem_setZ [simp]: "containerItem (setZ i v g) = containerItem g"
  by (simp add: setZ_def update_item_def)

lemma maxZ_setZ [simp]: "maxZ (setZ i v g) = maxZ g"
  by (simp add: setZ_def update_item_def)

section \<open>Selection of nodes without a visual item\<close>

text \<open>
  Claim C10. For a node whose visual item is null, \<open>selectNode\<close> returns false and
  \<open>setNodeSelected\<close> does nothing, whatever the selection policy and the modifier:
  the graph, and so both selection sets, are as before.
\<close>

theorem nonvisual_node_selection_noop:
  assumes "getItem g n = None"
  shows "selectNode n ctrlPressed g = (False, g) \<and> setNodeSelected n sel g = g"
  using assms
  by (simp add: selectNode_def setNodeSelected_def selectPrimitive_def setPrimitiveSelected_def)

theorem nonvisual_node_selection_noop_witness:
  "getItem nonvisual_graph 1 = None \<and>
   selectNode 1 True nonvisual_graph = (False, nonvisual_graph) \<and>
   setNodeSelected 1 True nonvisual_graph = nonvisual_graph"
proof -
  have h: "getItem nonvisual_graph 1 = None"
    by (simp add: getItem_def lookup_node_def nonvisual_graph_def empty_graph_def plain_node_def)
  show ?thesis
    using h nonvisual_node_selection_noop [OF h, of True True] by simp
qed

section \<open>Stacking\<close>



text \<open>
  The branches of \<open>sendToFront\<close> for a group item: a group at the root gets
  \<open>nextMaxZ()\<close>; for a nested group the collected group items are processed in
  turn, one whose parent is another container getting the maximum z of the children of
  that container plus one, with \<open>maxZ\<close> updated.
\<close>

lemma sendToFront_root_group:
  assumes "lookup_item g i = Some it" and "kind it = GroupItem"
    and "containerItem g = Some c" and "parentItem it = Some c"
  shows "sendToFront (Some i) g =
     Some (setZ i (qreal_add (maxZ g) 1) (g\<lparr>maxZ := qreal_add (maxZ g) 1\<rparr>))"
  using assms by (simp add: sendToFront_def nextMaxZ_def)

lemma sendToFront_nested_group:
  assumes "lookup_item g i = Some it" and "kind it = GroupItem"
    and "containerItem g = Some c" and "parentItem it = Some par" and "par \<noteq> c"
  shows "sendToFront (Some i) g =
     map_option (\<lambda>groups. fold (sendToFront_group c) groups g) (collectGroups_impl g [] i)"
  using assms by (simp add: sendToFront_def collectGroups_rec_def split: option.splits)

lemma sendToFront_group_nested_step:
  assumes "lookup_item g i = Some it" and "parentItem it = Some par" and "par \<noteq> c"
  shows "sendToFront_group c i g =
     setZ i (qreal_add (maxChildsZ (Some par) g) 1)
       (updateMaxZ (qreal_add (maxChildsZ (Some par) g) 1) g)"
  using assms by (simp add: sendToFront_group_def Let_def)

lemma sendToFront_group_root_step:
  assumes "lookup_item g i = Some it" and "parentItem it = Some c"
  shows "sendToFront_group c i g =
     setZ i (qreal_add (maxZ g) 1) (g\<lparr>maxZ := qreal_add (maxZ g) 1\<rparr>)"
  using assms by (simp add: sendToFront_group_def nextMaxZ_def)




text \<open>
  Claim C2, at a node nested inside a group. The node item 21 of \<open>group_graph\<close> lies
  in the group 10, whose group item 11 is a child of the container item. \<open>sendToFront\<close>
  of the node item gives it \<open>nextMaxZ()\<close> = 2 and walks no group: the group item keeps
  z = 1, where the claim assigns \<open>nextMaxZ()\<close> to it.
\<close>

theorem sendToFront_grouped_node:
  "map_option
     (\<lambda>g'. (map_option item_z (lookup_item g' 21), map_option item_z (lookup_item g' 11), maxZ g'))
     (sendToFront (Some 21) group_graph) = Some (Some 2, Some 1, 2)"
  by (simp add: sendToFront_def group_graph_def empty_graph_def plain_item_def plain_node_def
      lookup_item_def nextMaxZ_def setZ_def update_item_def qreal_add_numerals)

section \<open>Alignment\<close>

text \<open>
  What the alignment functions do establish: fewer than two items are left alone;
  \<open>alignLeft\<close> moves every item to the minimum left, for coordinates in the range of
  \<open>qreal\<close>; \<open>alignRight\<close> moves every right edge to the maximum right edge when
  that maximum is not below \<open>std::numeric_limits<qreal>::min()\<close>.
\<close>

lemma fold_max_Max:
  "fold (\<lambda>it m. max m (f it)) xs (a::real) = Max (insert a (f ` set xs))"
proof (induction xs arbitrary: a)
  case Nil
  show ?case by simp
next
  case (Cons x xs)
  have "Max (insert (max a (f x)) (f ` set xs)) = Max (insert a (insert (f x) (f ` set xs)))"
  proof (cases "xs = []")
    case True
    then show ?thesis by simp
  next
    case False
    then show ?thesis by (simp add: max.assoc)
  qed
  with Cons show ?case by simp
qed

lemma fold_min_Min:
  "fold (\<lambda>it m. min m (f it)) xs (a::real) = Min (insert a (f ` set xs))"
proof (induction xs arbitrary: a)
  case Nil
  show ?case by simp
next
  case (Cons x xs)
  have "Min (insert (min a (f x)) (f ` set xs)) = Min (insert a (insert (f x) (f ` set xs)))"
  proof (cases "xs = []")
    case True
    then show ?thesis by simp
  next
    case False
    then show ?thesis by (simp add: min.assoc)
  qed
  with Cons show ?case by simp
qed

lemma align_fewer_than_two:
  assumes "length items < 2"
  shows "alignLeft items = items" "alignRight items = items" "alignTop items = items"
    "alignBottom items = items" "alignHorizontalCenter items = items"
  using assms
  by (simp_all add: alignLeft_def alignRight_def alignTop_def alignBottom_def
      alignHorizontalCenter_def)

lemma alignLeft_min:
  assumes "2 \<le> length items" and "\<forall>it\<in>set items. item_x it \<le> qreal_max"
  shows "map item_x (alignLeft items) = map (\<lambda>it. Min (item_x ` set items)) items"
proof -
  have ne: "item_x ` set items \<noteq> {}" using assms(1) by auto
  have "items \<noteq> []" using assms(1) by auto
  then obtain it where it: "it \<in> set items" by (cases items) auto
  have "Min (item_x ` set items) \<le> item_x it" using it by simp
  also have "\<dots> \<le> qreal_max" using it assms(2) by blast
  finally have "Min (item_x ` set items) \<le> qreal_max" .
  then have "Min (insert qreal_max (item_x ` set items)) = Min (item_x ` set items)"
    using ne by (simp add: min_absorb2)
  then show ?thesis
    using assms(1) by (simp add: alignLeft_def fold_min_Min Let_def)
qed

lemma alignRight_max:
  assumes "2 \<le> length items"
    and "\<exists>it\<in>set items. qreal_min \<le> item_x it + item_width it"
  shows "map (\<lambda>it. item_x it + item_width it) (alignRight items) =
         map (\<lambda>it. Max ((\<lambda>it. item_x it + item_width it) ` set items)) items"
proof -
  let ?f = "\<lambda>it. item_x it + item_width it"
  have ne: "?f ` set items \<noteq> {}" using assms(1) by auto
  obtain it where it: "it \<in> set items" "qreal_min \<le> ?f it" using assms(2) by blast
  have "?f it \<le> Max (?f ` set items)" using it(1) by simp
  then have "qreal_min \<le> Max (?f ` set items)" using it(2) by linarith
  then have "Max (insert qreal_min (?f ` set items)) = Max (?f ` set items)"
    using ne by (simp add: max_absorb2)
  then show ?thesis
    using assms(1) by (simp add: alignRight_def fold_max_Max Let_def)
qed

text \<open>
  Claim C7, at two items whose right edges are negative. The maximum right edge of
  \<open>negative_items\<close> is -20, and \<open>alignRight\<close> moves both right edges to
  \<open>std::numeric_limits<qreal>::min()\<close>, the positive value its running maximum starts
  from.
\<close>

theorem alignRight_negative_items:
  "map (\<lambda>it. item_x it + item_width it) negative_items = [- 20, - 30] \<and>
   map (\<lambda>it. item_x it + item_width it) (alignRight negative_items) = [qreal_min, qreal_min] \<and>
   map item_x (alignRight negative_items) = [qreal_min - 10, qreal_min - 20] \<and>
   - 20 < qreal_min"
proof -
  have "max (max qreal_min (- 20)) (- 30) = qreal_min"
    using qreal_min_pos by simp
  moreover have "- 20 < qreal_min" using qreal_min_pos by simp
  ultimately show ?thesis
    by (simp add: alignRight_def negative_items_def plain_item_def)
qed

section \<open>Removal and the selection sets\<close>

text \<open>\<open>removeNode\<close> takes the node out of \<open>_selectedNodes\<close> and out of the store.\<close>

lemma removeNode_unselects: "p \<notin> set (selectedNodes (removeNode (Some p) g))"
  by (simp add: removeNode_def Let_def shared_from_this_def gtpo_remove_node_def
      split: option.splits)

lemma removeNode_removes: "lookup_node (removeNode (Some p) g) p = None"
  by (auto simp: removeNode_def Let_def shared_from_this_def gtpo_remove_node_def lookup_node_def
      map_of_eq_None_iff split: option.splits)

text \<open>
  Claim C1, at a selected group. Selecting the group 10 of \<open>group_graph\<close> puts it into
  \<open>_selectedGroups\<close>. \<open>removeGroup\<close> then removes the group from the store, and
  looks for it in \<open>_selectedNodes\<close> only: the removed group is still in
  \<open>_selectedGroups\<close> when the call returns.
\<close>

theorem removeGroup_keeps_selected_group:
  "selectedGroups (snd (selectGroup 10 False group_graph)) = [10] \<and>
   (case removeGroup (Some 10) (snd (selectGroup 10 False group_graph)) of
      Inl e \<Rightarrow> False
    | Inr g' \<Rightarrow> lookup_node g' 10 = None \<and> selectedGroups g' = [10] \<and> selectedNodes g' = [])"
  by (simp add: selectGroup_def selectPrimitive_def group_graph_def empty_graph_def
      plain_item_def plain_node_def getItem_def lookup_node_def lookup_item_def
      item_getSelected_def
      clearSelection_def addToSelectionImpl_def selectedPrimitives_def set_selectedPrimitives_def
      setSelected_def update_item_def removeGroup_def group_nodes_of_def lock_def
      removeGroup_reparent_def getGroupItem_def ungroupNodeItem_def shared_from_this_def
      gtpo_remove_group_def gtpo_remove_node_def)

section \<open>Grouping\<close>

text \<open>
  Claim C9. \<open>groupNode\<close> returns false exactly when the group or the node is null, when
  they are the same object, or when one of them is not owned by the store; and whenever
  it returns false the graph is as it was before the call.
\<close>

theorem groupNode_failure:
  "(fst (groupNode grp node transform g) = False \<longleftrightarrow>
      (grp = None \<or> node = None \<or> grp = node \<or>
       (\<exists>n. node = Some n \<and> lookup_node g n = None) \<or>
       (\<exists>gr. grp = Some gr \<and> lookup_node g gr = None))) \<and>
   (fst (groupNode grp node transform g) = False \<longrightarrow>
      groupNode grp node transform g = (False, g))"
  by (cases grp; cases node)
     (auto simp: groupNode_def shared_from_this_def gtpo_group_node_def split: option.splits)

theorem groupNode_failure_witness:
  "groupNode (Some 10) (Some 10) True group_graph = (False, group_graph) \<and>
   groupNode (Some 10) (Some 7) True group_graph = (False, group_graph)"
proof -
  have "lookup_node group_graph 7 = None"
    by (simp add: lookup_node_def group_graph_def empty_graph_def)
  then show ?thesis
    using groupNode_failure [of "Some 10" "Some 10" True group_graph]
      groupNode_failure [of "Some 10" "Some 7" True group_graph]
    by simp
qed

section \<open>The selection state machine\<close>

lemma map_fst_modify_item [simp]: "map fst (modify_item i f vs) = map fst vs"
  by (induction vs) auto

lemma update_item_fields [simp]:
  "store (update_item i f g) = store g"
  "selectedNodes (update_item i f g) = selectedNodes g"
  "selectedGroups (update_item i f g) = selectedGroups g"
  "selectionPolicy (update_item i f g) = selectionPolicy g"
  "selectionDelegate (update_item i f g) = selectionDelegate g"
  "map fst (visuals (update_item i f g)) = map fst (visuals g)"
  by (simp_all add: update_item_def)

lemma removeFromSelection_item_fields [simp]:
  "store (removeFromSelection_item x g) = store g"
  "visuals (removeFromSelection_item x g) = visuals g"
  "selectionPolicy (removeFromSelection_item x g) = selectionPolicy g"
  by (simp_all add: removeFromSelection_item_def split: option.splits)

lemma setSelected_fields [simp]:
  "store (setSelected i sel g) = store g"
  "map fst (visuals (setSelected i sel g)) = map fst (visuals g)"
  "selectionPolicy (setSelected i sel g) = selectionPolicy g"
  by (simp_all add: setSelected_def)

lemma setSelected_True_selection [simp]:
  "selectedNodes (setSelected i True g) = selectedNodes g"
  "selectedGroups (setSelected i True g) = selectedGroups g"
  by (simp_all add: setSelected_def)

lemma lookup_item_None_iff: "lookup_item g i = None \<longleftrightarrow> i \<notin> set (map fst (visuals g))"
  by (simp add: lookup_item_def map_of_eq_None_iff)

lemma getItem_cong:
  assumes "store g' = store g" and "map fst (visuals g') = map fst (visuals g)"
  shows "getItem g' p = getItem g p"
proof -
  have "\<And>i. (lookup_item g' i = None) = (lookup_item g i = None)"
    using assms(2) by (simp add: lookup_item_None_iff)
  then have "\<And>i. (case lookup_item g' i of None \<Rightarrow> None | Some it \<Rightarrow> Some i) =
                 (case lookup_item g i of None \<Rightarrow> None | Some it \<Rightarrow> Some i)"
    by (metis not_None_eq option.simps(4) option.simps(5))
  then show ?thesis
    using assms(1) by (simp add: getItem_def lookup_node_def cong: option.case_cong)
qed

lemma deselect_primitive_fields [simp]:
  "store (deselect_primitive p g) = store g"
  "map fst (visuals (deselect_primitive p g)) = map fst (visuals g)"
  "selectionPolicy (deselect_primitive p g) = selectionPolicy g"
  by (simp_all add: deselect_primitive_def split: option.splits)

lemma removeFromSelection_item_subset:
  "set (selectedNodes (removeFromSelection_item x g)) \<subseteq> set (selectedNodes g)"
  "set (selectedGroups (removeFromSelection_item x g)) \<subseteq> set (selectedGroups g)"
  by (auto simp: removeFromSelection_item_def split: option.splits)

lemma setSelected_subset:
  "set (selectedNodes (setSelected i sel g)) \<subseteq> set (selectedNodes g)"
  "set (selectedGroups (setSelected i sel g)) \<subseteq> set (selectedGroups g)"
  using removeFromSelection_item_subset[of "Some i" g] by (auto simp: setSelected_def)

lemma deselect_primitive_subset:
  "set (selectedNodes (deselect_primitive p g)) \<subseteq> set (selectedNodes g)"
  "set (selectedGroups (deselect_primitive p g)) \<subseteq> set (selectedGroups g)"
  using setSelected_subset[of _ False g] by (auto simp: deselect_primitive_def split: option.splits)

lemma fold_deselect_subset_nodes:
  "set (selectedNodes (fold deselect_primitive ps g)) \<subseteq> set (selectedNodes g)"
proof (induction ps arbitrary: g)
  case Nil
  show ?case by simp
next
  case (Cons a ps)
  have "set (selectedNodes (fold deselect_primitive ps (deselect_primitive a g)))
          \<subseteq> set (selectedNodes (deselect_primitive a g))"
    by (rule Cons.IH)
  also have "\<dots> \<subseteq> set (selectedNodes g)"
    by (rule deselect_primitive_subset)
  finally show ?case by simp
qed

lemma fold_deselect_selectedNodes_Nil:
  "selectedNodes g = [] \<Longrightarrow> selectedNodes (fold deselect_primitive ps g) = []"
  using fold_deselect_subset_nodes[of ps g] by simp

lemma fold_deselect_fields [simp]:
  "store (fold deselect_primitive ps g) = store g"
  "map fst (visuals (fold deselect_primitive ps g)) = map fst (visuals g)"
  "selectionPolicy (fold deselect_primitive ps g) = selectionPolicy g"
  by (induction ps arbitrary: g) simp_all

lemma clearSelection_fields [simp]:
  "store (clearSelection g) = store g"
  "map fst (visuals (clearSelection g)) = map fst (visuals g)"
  "selectionPolicy (clearSelection g) = selectionPolicy g"
  "selectedNodes (clearSelection g) = []"
  "selectedGroups (clearSelection g) = []"
  by (simp_all add: clearSelection_def Let_def fold_deselect_selectedNodes_Nil)

lemma getItem_clearSelection [simp]: "getItem (clearSelection g) p = getItem g p"
  by (rule getItem_cong) simp_all








lemma selectedPrimitives_clearSelection [simp]: "selectedPrimitives t (clearSelection g) = []"
  by (cases t) (simp_all add: selectedPrimitives_def)


text \<open>
  What \<open>clearSelection\<close> and \<open>addToSelectionImpl\<close> do to the items: the items of the
  selected primitives lose their flag, the item of the added primitive changes, and no
  other item changes.
\<close>

lemma lookup_item_removeFromSelection_item [simp]:
  "lookup_item (removeFromSelection_item x g) = lookup_item g"
  by (simp add: lookup_item_def fun_eq_iff)


lemma getItem_setSelected [simp]: "getItem (setSelected i sel g) p = getItem g p"
  by (rule getItem_cong) simp_all

lemma getItem_deselect_primitive [simp]: "getItem (deselect_primitive a g) p = getItem g p"
  by (rule getItem_cong) simp_all



lemma getItem_fold_deselect [simp]: "getItem (fold deselect_primitive ps g) p = getItem g p"
  by (rule getItem_cong) simp_all




lemma lookup_item_selectedNodes_update [simp]:
  "lookup_item (g\<lparr>selectedNodes := v\<rparr>) = lookup_item g"
  by (simp add: lookup_item_def fun_eq_iff)

lemma lookup_item_selectedGroups_update [simp]:
  "lookup_item (g\<lparr>selectedGroups := v\<rparr>) = lookup_item g"
  by (simp add: lookup_item_def fun_eq_iff)

lemma getItem_selectedNodes_update [simp]:
  "getItem (g\<lparr>selectedNodes := v\<rparr>) p = getItem g p"
  by (rule getItem_cong) simp_all

lemma getItem_selectedGroups_update [simp]:
  "getItem (g\<lparr>selectedGroups := v\<rparr>) p = getItem g p"
  by (rule getItem_cong) simp_all




lemma lookup_item_set_selectedPrimitives [simp]:
  "lookup_item (set_selectedPrimitives t ps g) = lookup_item g"
  by (cases t) (simp_all add: set_selectedPrimitives_def)

lemma getItem_set_selectedPrimitives [simp]:
  "getItem (set_selectedPrimitives t ps g) p = getItem g p"
  by (cases t) (simp_all add: set_selectedPrimitives_def)








section \<open>Insertion of a node\<close>










section \<open>Traversals\<close>

lemma for_each_append:
  "for_each f (xs @ ys) s =
     (case for_each f xs s of None \<Rightarrow> None | Some s' \<Rightarrow> for_each f ys s')"
  by (induction xs arbitrary: s) (auto split: option.splits)

lemma collectDfsRec_walk: "collectDfsRec d g cg = walk (dfs_succs g cg) d"
proof (induction d)
  case 0
  show ?case by simp
next
  case (Suc d)
  show ?case
  proof (rule ext, rule ext)
    fix node :: "ptr option" and st :: "ptr set \<times> ptr list"
    obtain marks out where st: "st = (marks, out)" by (cases st)
    show "collectDfsRec (Suc d) g cg node st = walk (dfs_succs g cg) (Suc d) node st"
    proof (cases node)
      case None
      then show ?thesis by (simp add: st)
    next
      case (Some n)
      have e: "dfs_succs g cg n =
          (if cg \<and> node_isGroup g n then group_nodes_of g n else []) @ out_nodes_of g n"
        by (simp add: dfs_succs_def)
      show ?thesis
        using Some unfolding st
        by (simp only: collectDfsRec.simps collectAncestorsDfsRec.simps walk.simps Suc)
           (simp add: e for_each_append split: option.splits)
    qed
  qed
qed

lemma collectAncestorsDfsRec_walk:
  "collectAncestorsDfsRec d g cg = walk (ancestors_succs g cg) d"
proof (induction d)
  case 0
  show ?case by simp
next
  case (Suc d)
  show ?case
  proof (rule ext, rule ext)
    fix node :: "ptr option" and st :: "ptr set \<times> ptr list"
    obtain marks out where st: "st = (marks, out)" by (cases st)
    show "collectAncestorsDfsRec (Suc d) g cg node st = walk (ancestors_succs g cg) (Suc d) node st"
    proof (cases node)
      case None
      then show ?thesis by (simp add: st)
    next
      case (Some n)
      have e: "ancestors_succs g cg n =
          (if cg \<and> node_isGroup g n then group_nodes_of g n else []) @
            node_getGroup g n # in_nodes_of g n"
        by (simp add: ancestors_succs_def)
      show ?thesis
        using Some unfolding st
        by (simp only: collectDfsRec.simps collectAncestorsDfsRec.simps walk.simps Suc)
           (simp add: e for_each_append split: option.splits)
    qed
  qed
qed

lemma walk_post_refl: "walk_post succs U M out (M, out)"
  unfolding walk_post_def by (rule exI[where x = "[]"]) simp

lemma walk_post_trans:
  assumes "walk_post succs U M out (M1, out1)" and "walk_post succs U M1 out1 r"
  shows "walk_post succs U M out r"
proof -
  from assms(1) obtain new1 where n1: "M1 = M \<union> set new1" "out1 = out @ new1" "distinct new1"
      "set new1 \<inter> M = {}" "set new1 \<subseteq> U"
      "\<forall>m\<in>set new1. \<forall>s. Some s \<in> set (succs m) \<longrightarrow> s \<in> M \<union> set new1"
    unfolding walk_post_def by auto
  from assms(2) obtain new2 where n2: "r = (M1 \<union> set new2, out1 @ new2)" "distinct new2"
      "set new2 \<inter> M1 = {}" "set new2 \<subseteq> U"
      "\<forall>m\<in>set new2. \<forall>s. Some s \<in> set (succs m) \<longrightarrow> s \<in> M1 \<union> set new2"
    unfolding walk_post_def by auto
  have "r = (M \<union> set (new1 @ new2), out @ (new1 @ new2))"
    using n1(1,2) n2(1) by auto
  moreover have "distinct (new1 @ new2)"
    using n1(1,3) n2(2,3) by auto
  moreover have "set (new1 @ new2) \<inter> M = {}"
    using n1(1,4) n2(3) by auto
  moreover have "set (new1 @ new2) \<subseteq> U"
    using n1(5) n2(4) by auto
  moreover have "\<forall>m\<in>set (new1 @ new2). \<forall>s. Some s \<in> set (succs m) \<longrightarrow> s \<in> M \<union> set (new1 @ new2)"
    using n1(1,6) n2(5) by auto
  ultimately show ?thesis
    unfolding walk_post_def by blast
qed

lemma walk_post_fst: "walk_post succs U M out r \<Longrightarrow> M \<subseteq> fst r \<and> fst r \<subseteq> M \<union> U"
  unfolding walk_post_def by auto

lemma card_Diff_mono:
  assumes "finite U" and "M \<subseteq> M'"
  shows "card (U - M') \<le> card (U - M)"
  using assms by (intro card_mono) auto

lemma for_each_post:
  assumes fin: "finite U"
    and step: "\<And>node M out. card (U - M) < d \<Longrightarrow> (\<forall>x. node = Some x \<longrightarrow> x \<in> U) \<Longrightarrow>
        \<exists>r. f node (M, out) = Some r \<and> walk_post succs U M out r \<and>
            (\<forall>x. node = Some x \<longrightarrow> x \<in> fst r)"
  shows "card (U - M) < d \<Longrightarrow> (\<forall>x. Some x \<in> set xs \<longrightarrow> x \<in> U) \<Longrightarrow>
        \<exists>r. for_each f xs (M, out) = Some r \<and> walk_post succs U M out r \<and>
            (\<forall>x. Some x \<in> set xs \<longrightarrow> x \<in> fst r)"
proof (induction xs arbitrary: M out)
  case Nil
  show ?case by (simp add: walk_post_refl)
next
  case (Cons a xs)
  have "\<forall>x. a = Some x \<longrightarrow> x \<in> U" using Cons.prems(2) by simp
  from step[OF Cons.prems(1) this, of out] obtain M1 out1 where
    r1: "f a (M, out) = Some (M1, out1)" "walk_post succs U M out (M1, out1)"
        "\<forall>x. a = Some x \<longrightarrow> x \<in> M1"
    by fastforce
  have sub: "M \<subseteq> M1" using walk_post_fst[OF r1(2)] by simp
  have c: "card (U - M1) < d"
    using card_Diff_mono[OF fin sub] Cons.prems(1) by simp
  have "\<forall>x. Some x \<in> set xs \<longrightarrow> x \<in> U" using Cons.prems(2) by simp
  from Cons.IH[OF c this, of out1] obtain r where
    r2: "for_each f xs (M1, out1) = Some r" "walk_post succs U M1 out1 r"
        "\<forall>x. Some x \<in> set xs \<longrightarrow> x \<in> fst r"
    by blast
  have "M1 \<subseteq> fst r" using walk_post_fst[OF r2(2)] by simp
  then have "\<forall>x. Some x \<in> set (a # xs) \<longrightarrow> x \<in> fst r"
    using r1(3) r2(3) by auto
  moreover have "for_each f (a # xs) (M, out) = Some r"
    using r1(1) r2(1) by simp
  moreover have "walk_post succs U M out r"
    using walk_post_trans[OF r1(2) r2(2)] .
  ultimately show ?case by blast
qed

lemma walk_total:
  assumes fin: "finite U"
    and succs: "\<And>n x. Some x \<in> set (succs n) \<Longrightarrow> x \<in> U"
  shows "card (U - M) < d \<Longrightarrow> (\<forall>x. node = Some x \<longrightarrow> x \<in> U) \<Longrightarrow>
        \<exists>r. walk succs d node (M, out) = Some r \<and> walk_post succs U M out r \<and>
            (\<forall>x. node = Some x \<longrightarrow> x \<in> fst r)"
proof (induction d arbitrary: node M out)
  case 0
  then show ?case by simp
next
  case (Suc d)
  show ?case
  proof (cases node)
    case None
    then show ?thesis by (simp add: walk_post_refl)
  next
    case (Some n)
    show ?thesis
    proof (cases "n \<in> M")
      case True
      then show ?thesis using Some by (simp add: walk_post_refl)
    next
      case False
      have nU: "n \<in> U" using Suc.prems(2) Some by simp
      have "card (U - insert n M) < card (U - M)"
        using fin nU False by (intro psubset_card_mono) auto
      then have c: "card (U - insert n M) < d" using Suc.prems(1) by simp
      have h: "\<forall>x. Some x \<in> set (succs n) \<longrightarrow> x \<in> U" using succs by blast
      have step: "\<And>node M out. card (U - M) < d \<Longrightarrow> (\<forall>x. node = Some x \<longrightarrow> x \<in> U) \<Longrightarrow>
          \<exists>r. walk succs d node (M, out) = Some r \<and> walk_post succs U M out r \<and>
              (\<forall>x. node = Some x \<longrightarrow> x \<in> fst r)"
        by (rule Suc.IH)
      have "\<exists>r. for_each (walk succs d) (succs n) (insert n M, out @ [n]) = Some r \<and>
          walk_post succs U (insert n M) (out @ [n]) r \<and>
          (\<forall>x. Some x \<in> set (succs n) \<longrightarrow> x \<in> fst r)"
        using fin step c h by (rule for_each_post)
      then obtain r where r: "for_each (walk succs d) (succs n) (insert n M, out @ [n]) = Some r"
          "walk_post succs U (insert n M) (out @ [n]) r"
          "\<forall>x. Some x \<in> set (succs n) \<longrightarrow> x \<in> fst r"
        by blast
      from r(2) obtain new where new: "r = (insert n M \<union> set new, (out @ [n]) @ new)"
          "distinct new" "set new \<inter> insert n M = {}" "set new \<subseteq> U"
          "\<forall>m\<in>set new. \<forall>s. Some s \<in> set (succs m) \<longrightarrow> s \<in> insert n M \<union> set new"
        unfolding walk_post_def by auto
      have "walk_post succs U M out r"
        unfolding walk_post_def
      proof (intro exI[where x = "n # new"] conjI)
        show "r = (M \<union> set (n # new), out @ n # new)" using new(1) by simp
        show "distinct (n # new)" using new(2,3) by auto
        show "set (n # new) \<inter> M = {}" using new(3) False by auto
        show "set (n # new) \<subseteq> U" using new(4) nU by simp
        show "\<forall>m\<in>set (n # new). \<forall>s. Some s \<in> set (succs m) \<longrightarrow> s \<in> M \<union> set (n # new)"
          using new(5) r(3) new(1) by auto
      qed
      moreover have "walk succs (Suc d) node (M, out) = Some r"
        using Some False r(1) by simp
      moreover have "n \<in> fst r" using new(1) by simp
      ultimately show ?thesis using Some by simp
    qed
  qed
qed


lemma for_each_prefix:
  assumes "\<And>x M out r. f x (M, out) = Some r \<Longrightarrow> \<exists>rest. snd r = out @ rest"
  shows "for_each f xs (M, out) = Some r \<Longrightarrow> \<exists>rest. snd r = out @ rest"
proof (induction xs arbitrary: M out)
  case Nil
  then show ?case by auto
next
  case (Cons a xs)
  from Cons.prems obtain M1 out1 where a: "f a (M, out) = Some (M1, out1)"
      and r: "for_each f xs (M1, out1) = Some r"
    by (auto split: option.splits)
  from assms[OF a] obtain rest1 where "out1 = out @ rest1" by auto
  moreover from Cons.IH[OF r] obtain rest2 where "snd r = out1 @ rest2" by auto
  ultimately show ?case by simp
qed

lemma walk_prefix: "walk succs d node (M, out) = Some r \<Longrightarrow> \<exists>rest. snd r = out @ rest"
proof (induction d arbitrary: node M out r)
  case 0
  then show ?case by simp
next
  case (Suc d)
  show ?case
  proof (cases node)
    case None
    then show ?thesis using Suc.prems by auto
  next
    case (Some n)
    show ?thesis
    proof (cases "n \<in> M")
      case True
      then show ?thesis using Suc.prems Some by auto
    next
      case False
      then have "for_each (walk succs d) (succs n) (insert n M, out @ [n]) = Some r"
        using Suc.prems Some by simp
      moreover have "\<And>x M out r. walk succs d x (M, out) = Some r \<Longrightarrow> \<exists>rest. snd r = out @ rest"
        by (rule Suc.IH)
      ultimately have "\<exists>rest. snd r = (out @ [n]) @ rest"
        by (rule for_each_prefix[rotated])
      then obtain rest where "snd r = out @ (n # rest)" by auto
      then show ?thesis by blast
    qed
  qed
qed

lemma walk_first:
  assumes "n \<notin> M" and "walk succs d (Some n) (M, out) = Some r"
  shows "\<exists>rest. snd r = out @ n # rest"
proof (cases d)
  case 0
  then show ?thesis using assms by simp
next
  case (Suc d')
  then have "for_each (walk succs d') (succs n) (insert n M, out @ [n]) = Some r"
    using assms by simp
  moreover have "\<And>x M out r. walk succs d' x (M, out) = Some r \<Longrightarrow> \<exists>rest. snd r = out @ rest"
    by (rule walk_prefix)
  ultimately have "\<exists>rest. snd r = (out @ [n]) @ rest"
    by (rule for_each_prefix[rotated])
  then show ?thesis by simp
qed

lemma lock_live: "lock g p = Some x \<Longrightarrow> x \<in> fst ` set (store g)"
  by (auto simp: lock_def lookup_node_def split: option.splits dest: map_of_SomeD intro: rev_image_eqI)

lemma out_nodes_of_live: "Some x \<in> set (out_nodes_of g n) \<Longrightarrow> x \<in> fst ` set (store g)"
  by (auto simp: out_nodes_of_def split: option.splits dest!: lock_live[OF sym])

lemma in_nodes_of_live: "Some x \<in> set (in_nodes_of g n) \<Longrightarrow> x \<in> fst ` set (store g)"
  by (auto simp: in_nodes_of_def split: option.splits dest!: lock_live[OF sym])

lemma group_nodes_of_live: "Some x \<in> set (group_nodes_of g n) \<Longrightarrow> x \<in> fst ` set (store g)"
  by (auto simp: group_nodes_of_def split: option.splits dest!: lock_live[OF sym])

lemma node_getGroup_live: "node_getGroup g n = Some x \<Longrightarrow> x \<in> fst ` set (store g)"
  by (auto simp: node_getGroup_def split: option.splits dest!: lock_live)

lemma dfs_succs_live: "Some x \<in> set (dfs_succs g cg n) \<Longrightarrow> x \<in> fst ` set (store g)"
  by (auto simp: dfs_succs_def dest: out_nodes_of_live group_nodes_of_live split: if_splits)

lemma ancestors_succs_live:
  "Some x \<in> set (ancestors_succs g cg n) \<Longrightarrow> x \<in> fst ` set (store g)"
  by (auto simp: ancestors_succs_def
      dest: in_nodes_of_live group_nodes_of_live node_getGroup_live[OF sym] split: if_splits)

lemma card_live: "card (fst ` set (store g) - {}) < dfs_depth g"
proof -
  have "card (fst ` set (store g)) \<le> card (set (store g))"
    by (rule card_image_le) simp
  also have "\<dots> \<le> length (store g)" by (rule card_length)
  finally show ?thesis by (simp add: dfs_depth_def)
qed

lemma walk_from_start:
  assumes succs: "\<And>n x. Some x \<in> set (succs n) \<Longrightarrow> x \<in> fst ` set (store g)"
    and start: "\<And>x. Some x \<in> set xs \<Longrightarrow> x \<in> fst ` set (store g)"
  shows "\<exists>new. for_each (walk succs (dfs_depth g)) xs ({}, []) = Some (set new, new) \<and>
           distinct new \<and> (\<forall>x. Some x \<in> set xs \<longrightarrow> x \<in> set new) \<and>
           (\<forall>m\<in>set new. \<forall>s. Some s \<in> set (succs m) \<longrightarrow> s \<in> set new)"
proof -
  let ?U = "fst ` set (store g)"
  have fin: "finite ?U" by simp
  have step: "\<And>node M out. card (?U - M) < dfs_depth g \<Longrightarrow> (\<forall>x. node = Some x \<longrightarrow> x \<in> ?U) \<Longrightarrow>
          \<exists>r. walk succs (dfs_depth g) node (M, out) = Some r \<and> walk_post succs ?U M out r \<and>
              (\<forall>x. node = Some x \<longrightarrow> x \<in> fst r)"
    using fin succs by (rule walk_total)
  have h: "\<forall>x. Some x \<in> set xs \<longrightarrow> x \<in> ?U" using start by blast
  have "\<exists>r. for_each (walk succs (dfs_depth g)) xs ({}, []) = Some r \<and>
          walk_post succs ?U {} [] r \<and> (\<forall>x. Some x \<in> set xs \<longrightarrow> x \<in> fst r)"
    using fin step card_live h by (rule for_each_post)
  then show ?thesis
    unfolding walk_post_def by auto
qed

lemma collectDfs_state_walk:
  "collectDfs_state g node cg =
     for_each (walk (dfs_succs g cg) (dfs_depth g)) (dfs_succs g cg node) ({}, [])"
  unfolding collectDfs_state_def collectDfsRec_walk
  by (simp add: dfs_succs_def[of g cg node] for_each_append)

lemma collectAncestorsDfs_state_walk:
  "collectAncestorsDfs_state g node cg =
     for_each (walk (ancestors_succs g cg) (dfs_depth g)) (ancestors_starts g cg node) ({}, [])"
  unfolding collectAncestorsDfs_state_def collectAncestorsDfsRec_walk ancestors_starts_def
  by (simp add: for_each_append)

text \<open>
  The output of the walk is the order of the first visits, and this order is unique; it
  lists exactly the nodes that can be reached from the start nodes.
\<close>

inductive_cases fvo_NilE: "first_visit_order succs [] M new"
inductive_cases fvo_NoneE: "first_visit_order succs (None # xs) M new"
inductive_cases fvo_SomeE: "first_visit_order succs (Some n # xs) M new"

lemma first_visit_order_unique:
  "first_visit_order succs xs M a \<Longrightarrow> first_visit_order succs xs M b \<Longrightarrow> a = b"
proof (induction arbitrary: b rule: first_visit_order.induct)
  case (finished M)
  then show ?case by (auto elim: fvo_NilE)
next
  case (null xs M new)
  from null.prems have "first_visit_order succs xs M b" by (auto elim: fvo_NoneE)
  then show ?case by (rule null.IH)
next
  case (visited n M xs new)
  from visited.prems visited.hyps(1) have "first_visit_order succs xs M b"
    by (auto elim: fvo_SomeE)
  then show ?case by (rule visited.IH)
next
  case (first_visit n M new1 xs new2)
  from first_visit.prems first_visit.hyps(1) obtain b1 b2 where
    b: "b = n # b1 @ b2" "first_visit_order succs (succs n) (insert n M) b1"
       "first_visit_order succs xs (insert n M \<union> set b1) b2"
    by (auto elim: fvo_SomeE)
  have 1: "new1 = b1" using b(2) by (rule first_visit.IH(1))
  have 2: "new2 = b2" using b(3) unfolding 1[symmetric] by (rule first_visit.IH(2))
  show ?case using b(1) 1 2 by simp
qed

lemma first_visit_order_reachable:
  "first_visit_order succs xs M new \<Longrightarrow>
     \<forall>y\<in>set new. \<exists>x. Some x \<in> set xs \<and> (x, y) \<in> (edges succs)\<^sup>*"
proof (induction rule: first_visit_order.induct)
  case (finished M)
  show ?case by simp
next
  case (null xs M new)
  then show ?case by auto
next
  case (visited n M xs new)
  then show ?case by auto
next
  case (first_visit n M new1 xs new2)
  show ?case
  proof
    fix y assume "y \<in> set (n # new1 @ new2)"
    then consider "y = n" | "y \<in> set new1" | "y \<in> set new2" by auto
    then show "\<exists>x. Some x \<in> set (Some n # xs) \<and> (x, y) \<in> (edges succs)\<^sup>*"
    proof cases
      case 1
      then show ?thesis by auto
    next
      case 2
      then obtain s where s: "Some s \<in> set (succs n)" "(s, y) \<in> (edges succs)\<^sup>*"
        using first_visit.IH(1) by blast
      have "(n, s) \<in> edges succs" using s(1) by (simp add: edges_def)
      then have "(n, y) \<in> (edges succs)\<^sup>*" using s(2) by (rule converse_rtrancl_into_rtrancl)
      then show ?thesis by auto
    next
      case 3
      then show ?thesis using first_visit.IH(2) by auto
    qed
  qed
qed

lemma closed_reachable:
  assumes closed: "\<forall>m\<in>S. \<forall>s. Some s \<in> set (succs m) \<longrightarrow> s \<in> S"
    and "(x, y) \<in> (edges succs)\<^sup>*" and "x \<in> S"
  shows "y \<in> S"
  using assms(2,3)
proof (induction rule: rtrancl_induct)
  case base
  then show ?case .
next
  case (step y z)
  then have "y \<in> S" by simp
  moreover have "Some z \<in> set (succs y)" using step.hyps(2) by (simp add: edges_def)
  ultimately show ?case using closed by blast
qed

lemma for_each_first_visit_order:
  assumes step: "\<And>x M out r. f x (M, out) = Some r \<Longrightarrow>
      (x = None \<or> (\<exists>n. x = Some n \<and> n \<in> M)) \<and> r = (M, out) \<or>
      (\<exists>n new1. x = Some n \<and> n \<notin> M \<and> r = (insert n M \<union> set new1, out @ n # new1) \<and>
         first_visit_order succs (succs n) (insert n M) new1)"
  shows "for_each f xs (M, out) = Some r \<Longrightarrow>
     \<exists>new. r = (M \<union> set new, out @ new) \<and> first_visit_order succs xs M new"
proof (induction xs arbitrary: M out)
  case Nil
  then show ?case by (auto intro: first_visit_order.finished)
next
  case (Cons a xs)
  from Cons.prems obtain M1 out1 where a: "f a (M, out) = Some (M1, out1)"
      and r: "for_each f xs (M1, out1) = Some r"
    by (auto split: option.splits)
  from Cons.IH[OF r] obtain new2 where n2: "r = (M1 \<union> set new2, out1 @ new2)"
      "first_visit_order succs xs M1 new2"
    by blast
  from step[OF a] consider
      (skip) "a = None \<or> (\<exists>n. a = Some n \<and> n \<in> M)" "M1 = M" "out1 = out"
    | (visit) n new1 where "a = Some n" "n \<notin> M" "M1 = insert n M \<union> set new1"
        "out1 = out @ n # new1" "first_visit_order succs (succs n) (insert n M) new1"
    by auto
  then show ?case
  proof cases
    case skip
    have "first_visit_order succs (a # xs) M new2"
      using skip(1) n2(2) unfolding skip(2)
      by (auto intro: first_visit_order.null first_visit_order.visited)
    then show ?thesis using n2(1) skip(2,3) by blast
  next
    case visit
    have "first_visit_order succs (a # xs) M (n # new1 @ new2)"
      unfolding visit(1) using visit(2,5) n2(2)[unfolded visit(3)]
      by (rule first_visit_order.first_visit)
    moreover have "r = (M \<union> set (n # new1 @ new2), out @ (n # new1 @ new2))"
      using n2(1) visit(3,4) by auto
    ultimately show ?thesis by blast
  qed
qed

lemma walk_first_visit_order:
  "walk succs d x (M, out) = Some r \<Longrightarrow>
      (x = None \<or> (\<exists>n. x = Some n \<and> n \<in> M)) \<and> r = (M, out) \<or>
      (\<exists>n new1. x = Some n \<and> n \<notin> M \<and> r = (insert n M \<union> set new1, out @ n # new1) \<and>
         first_visit_order succs (succs n) (insert n M) new1)"
proof (induction d arbitrary: x M out r)
  case 0
  then show ?case by simp
next
  case (Suc d)
  show ?case
  proof (cases x)
    case None
    then show ?thesis using Suc.prems by simp
  next
    case (Some n)
    show ?thesis
    proof (cases "n \<in> M")
      case True
      then show ?thesis using Suc.prems Some by simp
    next
      case False
      then have "for_each (walk succs d) (succs n) (insert n M, out @ [n]) = Some r"
        using Suc.prems Some by simp
      then have "\<exists>new. r = (insert n M \<union> set new, (out @ [n]) @ new) \<and>
          first_visit_order succs (succs n) (insert n M) new"
        by (rule for_each_first_visit_order[rotated]) (rule Suc.IH)
      then show ?thesis using Some False by auto
    qed
  qed
qed

lemma walk_from_start_order:
  assumes "for_each (walk succs d) xs ({}, []) = Some (M, new)"
  shows "first_visit_order succs xs {} new"
proof -
  have "\<exists>new'. (M, new) = ({} \<union> set new', [] @ new') \<and> first_visit_order succs xs {} new'"
    using assms by (rule for_each_first_visit_order[rotated]) (rule walk_first_visit_order)
  then show ?thesis by auto
qed

lemma walk_output:
  assumes succs: "\<And>n x. Some x \<in> set (succs n) \<Longrightarrow> x \<in> fst ` set (store g)"
    and start: "\<And>x. Some x \<in> set xs \<Longrightarrow> x \<in> fst ` set (store g)"
  shows "\<exists>new. for_each (walk succs (dfs_depth g)) xs ({}, []) = Some (set new, new) \<and>
           distinct new \<and>
           set new = {y. \<exists>x. Some x \<in> set xs \<and> (x, y) \<in> (edges succs)\<^sup>*} \<and>
           first_visit_order succs xs {} new \<and>
           (\<forall>other. first_visit_order succs xs {} other \<longrightarrow> other = new)"
proof -
  from walk_from_start[where succs = succs and g = g and xs = xs] obtain new where new:
    "for_each (walk succs (dfs_depth g)) xs ({}, []) = Some (set new, new)"
    "distinct new" "\<forall>x. Some x \<in> set xs \<longrightarrow> x \<in> set new"
    "\<forall>m\<in>set new. \<forall>s. Some s \<in> set (succs m) \<longrightarrow> s \<in> set new"
    using succs start by blast
  have fvo: "first_visit_order succs xs {} new"
    using new(1) by (rule walk_from_start_order)
  have up: "set new \<subseteq> {y. \<exists>x. Some x \<in> set xs \<and> (x, y) \<in> (edges succs)\<^sup>*}"
    using first_visit_order_reachable[OF fvo] by blast
  have low: "{y. \<exists>x. Some x \<in> set xs \<and> (x, y) \<in> (edges succs)\<^sup>*} \<subseteq> set new"
    using closed_reachable[OF new(4)] new(3) by blast
  have uniq: "\<forall>other. first_visit_order succs xs {} other \<longrightarrow> other = new"
    using first_visit_order_unique[OF _ fvo] by blast
  show ?thesis
  proof (intro exI conjI)
    show "for_each (walk succs (dfs_depth g)) xs ({}, []) = Some (set new, new)" by (rule new(1))
    show "distinct new" by (rule new(2))
    show "set new = {y. \<exists>x. Some x \<in> set xs \<and> (x, y) \<in> (edges succs)\<^sup>*}"
      using up low by (rule equalityI)
    show "first_visit_order succs xs {} new" by (rule fvo)
    show "\<forall>other. first_visit_order succs xs {} other \<longrightarrow> other = new" by (rule uniq)
  qed
qed


lemma edges_trancl:
  "{y. \<exists>x. Some x \<in> set (succs n) \<and> (x, y) \<in> (edges succs)\<^sup>*} = {y. (n, y) \<in> (edges succs)\<^sup>+}"
proof -
  have "(n, y) \<in> (edges succs)\<^sup>+ \<longleftrightarrow> (\<exists>x. Some x \<in> set (succs n) \<and> (x, y) \<in> (edges succs)\<^sup>*)" for y
  proof
    assume "(n, y) \<in> (edges succs)\<^sup>+"
    then obtain x where "(n, x) \<in> edges succs" "(x, y) \<in> (edges succs)\<^sup>*"
      by (blast dest: tranclD)
    then show "\<exists>x. Some x \<in> set (succs n) \<and> (x, y) \<in> (edges succs)\<^sup>*"
      by (auto simp: edges_def)
  next
    assume "\<exists>x. Some x \<in> set (succs n) \<and> (x, y) \<in> (edges succs)\<^sup>*"
    then obtain x where "(n, x) \<in> edges succs" "(x, y) \<in> (edges succs)\<^sup>*"
      by (auto simp: edges_def)
    then show "(n, y) \<in> (edges succs)\<^sup>+" by (rule rtrancl_into_trancl2)
  qed
  then show ?thesis by blast
qed

lemma dfs_succs_no_groups: "dfs_succs g False = out_nodes_of g"
  by (rule ext) (simp add: dfs_succs_def)

lemma ex_conj_SomeD: "\<exists>x. f = Some x \<and> Q x \<Longrightarrow> f = Some v \<Longrightarrow> Q v"
  by auto

text \<open>
  Claim C6. For every graph, cyclic or not, \<open>collectDfs\<close> returns: the depth of the
  recursion stays within the bound. Its marks are the set of the addresses of the nodes
  in its output. The output lists each node once; its nodes are exactly those that can
  be reached from the start node by one or more edges (out-edges and, with
  \<open>collectGroup\<close>, from a group to its members); and it is the order of the first
  visits from the successors of the start node, the only list that is. Inside the
  recursion, a call on a marked node changes nothing and a call on an unmarked node
  appends this node first, to the end of the output so far.
\<close>

theorem collectDfs_terminates_once:
  "\<exists>childs.
     collectDfs g node collectGroup = Some childs \<and>
     collectDfs_state g node collectGroup = Some (set childs, childs) \<and>
     distinct childs \<and>
     set childs = {y. (node, y) \<in> (edges (dfs_succs g collectGroup))\<^sup>+} \<and>
     first_visit_order (dfs_succs g collectGroup) (dfs_succs g collectGroup node) {} childs \<and>
     (\<forall>other. first_visit_order (dfs_succs g collectGroup) (dfs_succs g collectGroup node) {} other
        \<longrightarrow> other = childs) \<and>
     (\<not> collectGroup \<longrightarrow> dfs_succs g collectGroup = out_nodes_of g) \<and>
     (\<forall>d n M cs. n \<in> M \<longrightarrow> collectDfsRec (Suc d) g collectGroup (Some n) (M, cs) = Some (M, cs)) \<and>
     (\<forall>d n M cs r. n \<notin> M \<and> collectDfsRec d g collectGroup (Some n) (M, cs) = Some r \<longrightarrow>
        (\<exists>rest. snd r = cs @ n # rest))"
proof -
  let ?succs = "dfs_succs g collectGroup"
  from walk_output[where succs = ?succs and xs = "?succs node" and g = g]
  obtain new where new:
    "for_each (walk ?succs (dfs_depth g)) (?succs node) ({}, []) = Some (set new, new)"
    "distinct new"
    "set new = {y. \<exists>x. Some x \<in> set (?succs node) \<and> (x, y) \<in> (edges ?succs)\<^sup>*}"
    "first_visit_order ?succs (?succs node) {} new"
    "\<forall>other. first_visit_order ?succs (?succs node) {} other \<longrightarrow> other = new"
    using dfs_succs_live by blast
  have st: "collectDfs_state g node collectGroup = Some (set new, new)"
    using new(1) by (simp add: collectDfs_state_walk)
  have s: "set new = {y. (node, y) \<in> (edges ?succs)\<^sup>+}"
    using new(3) unfolding edges_trancl .
  have g: "\<not> collectGroup \<longrightarrow> ?succs = out_nodes_of g"
    using dfs_succs_no_groups by simp
  have c: "\<forall>d n M cs. n \<in> M \<longrightarrow>
      collectDfsRec (Suc d) g collectGroup (Some n) (M, cs) = Some (M, cs)"
    by simp
  have d: "\<forall>d n M cs r. n \<notin> M \<and> collectDfsRec d g collectGroup (Some n) (M, cs) = Some r \<longrightarrow>
        (\<exists>rest. snd r = cs @ n # rest)"
    unfolding collectDfsRec_walk using walk_first by blast
  show ?thesis
  proof (intro exI conjI)
    show "collectDfs g node collectGroup = Some new" by (simp add: collectDfs_def st)
    show "collectDfs_state g node collectGroup = Some (set new, new)" by (rule st)
    show "distinct new" by (rule new(2))
    show "set new = {y. (node, y) \<in> (edges ?succs)\<^sup>+}" by (rule s)
    show "first_visit_order ?succs (?succs node) {} new" by (rule new(4))
    show "\<forall>other. first_visit_order ?succs (?succs node) {} other \<longrightarrow> other = new" by (rule new(5))
    show "\<not> collectGroup \<longrightarrow> ?succs = out_nodes_of g" by (rule g)
    show "\<forall>d n M cs. n \<in> M \<longrightarrow>
      collectDfsRec (Suc d) g collectGroup (Some n) (M, cs) = Some (M, cs)" by (rule c)
    show "\<forall>d n M cs r. n \<notin> M \<and> collectDfsRec d g collectGroup (Some n) (M, cs) = Some r \<longrightarrow>
        (\<exists>rest. snd r = cs @ n # rest)" by (rule d)
  qed
qed

theorem collectDfs_terminates_once_witness:
  "collectDfs cycle_graph 1 False = Some [2, 1] \<and>
   collectDfs_state cycle_graph 1 False = Some ({1, 2}, [2, 1]) \<and> distinct [2, 1 :: nat] \<and>
   first_visit_order (out_nodes_of cycle_graph) (out_nodes_of cycle_graph 1) {} [2, 1] \<and>
   {y. (1, y) \<in> (edges (out_nodes_of cycle_graph))\<^sup>+} = {1, 2}"
proof -
  have e: "collectDfs_state cycle_graph 1 False = Some ({1, 2}, [2, 1])"
    by (simp add: collectDfs_state_def dfs_depth_def cycle_graph_def empty_graph_def
        plain_node_def out_nodes_of_def node_isGroup_def lookup_node_def lock_def insert_commute)
  have o: "collectDfs cycle_graph 1 False = Some [2, 1]"
    unfolding collectDfs_def e by simp
  note c = ex_conj_SomeD [OF collectDfs_terminates_once [of cycle_graph 1 False] o]
  have su: "dfs_succs cycle_graph False = out_nodes_of cycle_graph"
    using c [THEN conjunct2, THEN conjunct2, THEN conjunct2, THEN conjunct2, THEN conjunct2,
        THEN conjunct1] by simp
  have 1: "first_visit_order (out_nodes_of cycle_graph) (out_nodes_of cycle_graph 1) {} [2, 1]"
    using c [THEN conjunct2, THEN conjunct2, THEN conjunct2, THEN conjunct1] unfolding su .
  have "set [2, 1 :: nat] = {y. (1, y) \<in> (edges (out_nodes_of cycle_graph))\<^sup>+}"
    using c [THEN conjunct2, THEN conjunct2, THEN conjunct1] unfolding su .
  then have 2: "{y. (1, y) \<in> (edges (out_nodes_of cycle_graph))\<^sup>+} = {1, 2}"
    by (simp add: insert_commute)
  have 3: "distinct [2, 1 :: nat]" by simp
  show ?thesis
    using o e 3 1 2 by (intro conjI)
qed

text \<open>
  Claim C5, as amended. \<open>collectAncestorsDfs\<close> returns, and its output lists each
  node at most once. The walk starts from the members of the start node (for a group
  with \<open>collectGroup\<close>) and from its in-nodes, and not from its owning group; from every
  node it reaches it goes on to the members (for a group with \<open>collectGroup\<close>), to the
  owning group and to the in-nodes. The output holds exactly the nodes that can be
  reached in this way from the start nodes, so the owning group of the start node is in
  it only when the walk reaches it from them; it is the order of the first visits, the
  only list that is; and it holds the owning group of every node in it.
\<close>

theorem collectAncestorsDfs_amended:
  "\<exists>parents.
     collectAncestorsDfs g node collectGroup = Some parents \<and>
     collectAncestorsDfs_state g node collectGroup = Some (set parents, parents) \<and>
     distinct parents \<and>
     set parents =
       {y. \<exists>x. Some x \<in> set (ancestors_starts g collectGroup node) \<and>
              (x, y) \<in> (edges (ancestors_succs g collectGroup))\<^sup>*} \<and>
     first_visit_order (ancestors_succs g collectGroup) (ancestors_starts g collectGroup node) {}
       parents \<and>
     (\<forall>other. first_visit_order (ancestors_succs g collectGroup)
          (ancestors_starts g collectGroup node) {} other \<longrightarrow> other = parents) \<and>
     (\<forall>x. Some x \<in> set (in_nodes_of g node) \<longrightarrow> x \<in> set parents) \<and>
     (collectGroup \<and> node_isGroup g node \<longrightarrow>
        (\<forall>x. Some x \<in> set (group_nodes_of g node) \<longrightarrow> x \<in> set parents)) \<and>
     (\<forall>m\<in>set parents.
        (\<forall>gr. node_getGroup g m = Some gr \<longrightarrow> gr \<in> set parents) \<and>
        (\<forall>x. Some x \<in> set (in_nodes_of g m) \<longrightarrow> x \<in> set parents) \<and>
        (collectGroup \<and> node_isGroup g m \<longrightarrow>
           (\<forall>x. Some x \<in> set (group_nodes_of g m) \<longrightarrow> x \<in> set parents)))"
proof -
  let ?succs = "ancestors_succs g collectGroup"
  let ?xs = "ancestors_starts g collectGroup node"
  have live: "\<And>x. Some x \<in> set ?xs \<Longrightarrow> x \<in> fst ` set (store g)"
    by (auto simp: ancestors_starts_def dest: in_nodes_of_live group_nodes_of_live split: if_splits)
  from walk_output[where succs = ?succs and xs = ?xs and g = g]
  obtain new where new:
    "for_each (walk ?succs (dfs_depth g)) ?xs ({}, []) = Some (set new, new)"
    "distinct new"
    "set new = {y. \<exists>x. Some x \<in> set ?xs \<and> (x, y) \<in> (edges ?succs)\<^sup>*}"
    "first_visit_order ?succs ?xs {} new"
    "\<forall>other. first_visit_order ?succs ?xs {} other \<longrightarrow> other = new"
    using ancestors_succs_live live by blast
  have st: "collectAncestorsDfs_state g node collectGroup = Some (set new, new)"
    using new(1) by (simp only: collectAncestorsDfs_state_walk)
  have start: "\<forall>x. Some x \<in> set ?xs \<longrightarrow> x \<in> set new"
    unfolding new(3) by blast
  have closed: "\<forall>m\<in>set new. \<forall>s. Some s \<in> set (?succs m) \<longrightarrow> s \<in> set new"
  proof (intro ballI allI impI)
    fix m s assume m: "m \<in> set new" and s: "Some s \<in> set (?succs m)"
    from m obtain x where x: "Some x \<in> set ?xs" "(x, m) \<in> (edges ?succs)\<^sup>*"
      unfolding new(3) by blast
    have "(m, s) \<in> edges ?succs" using s by (simp add: edges_def)
    with x(2) have "(x, s) \<in> (edges ?succs)\<^sup>*" by (rule rtrancl_into_rtrancl)
    with x(1) show "s \<in> set new" unfolding new(3) by blast
  qed
  have a: "\<forall>x. Some x \<in> set (in_nodes_of g node) \<longrightarrow> x \<in> set new"
    using start by (simp add: ancestors_starts_def)
  have a': "collectGroup \<and> node_isGroup g node \<longrightarrow>
        (\<forall>x. Some x \<in> set (group_nodes_of g node) \<longrightarrow> x \<in> set new)"
    using start by (simp add: ancestors_starts_def)
  have b: "\<forall>m\<in>set new.
        (\<forall>gr. node_getGroup g m = Some gr \<longrightarrow> gr \<in> set new) \<and>
        (\<forall>x. Some x \<in> set (in_nodes_of g m) \<longrightarrow> x \<in> set new) \<and>
        (collectGroup \<and> node_isGroup g m \<longrightarrow>
           (\<forall>x. Some x \<in> set (group_nodes_of g m) \<longrightarrow> x \<in> set new))"
  proof
    fix m assume m: "m \<in> set new"
    have s: "\<forall>s. Some s \<in> set (ancestors_succs g collectGroup m) \<longrightarrow> s \<in> set new"
      using closed m by blast
    have 1: "\<forall>gr. node_getGroup g m = Some gr \<longrightarrow> gr \<in> set new"
      using s by (simp add: ancestors_succs_def)
    have 2: "\<forall>x. Some x \<in> set (in_nodes_of g m) \<longrightarrow> x \<in> set new"
      using s by (simp add: ancestors_succs_def)
    have 3: "collectGroup \<and> node_isGroup g m \<longrightarrow>
           (\<forall>x. Some x \<in> set (group_nodes_of g m) \<longrightarrow> x \<in> set new)"
      using s by (simp add: ancestors_succs_def)
    from 1 2 3 show "(\<forall>gr. node_getGroup g m = Some gr \<longrightarrow> gr \<in> set new) \<and>
        (\<forall>x. Some x \<in> set (in_nodes_of g m) \<longrightarrow> x \<in> set new) \<and>
        (collectGroup \<and> node_isGroup g m \<longrightarrow>
           (\<forall>x. Some x \<in> set (group_nodes_of g m) \<longrightarrow> x \<in> set new))"
      by blast
  qed
  show ?thesis
  proof (intro exI conjI)
    show "collectAncestorsDfs g node collectGroup = Some new"
      by (simp add: collectAncestorsDfs_def st)
    show "collectAncestorsDfs_state g node collectGroup = Some (set new, new)" by (rule st)
    show "distinct new" by (rule new(2))
    show "set new = {y. \<exists>x. Some x \<in> set ?xs \<and> (x, y) \<in> (edges ?succs)\<^sup>*}" by (rule new(3))
    show "first_visit_order ?succs ?xs {} new" by (rule new(4))
    show "\<forall>other. first_visit_order ?succs ?xs {} other \<longrightarrow> other = new" by (rule new(5))
    show "\<forall>x. Some x \<in> set (in_nodes_of g node) \<longrightarrow> x \<in> set new" by (rule a)
    show "collectGroup \<and> node_isGroup g node \<longrightarrow>
        (\<forall>x. Some x \<in> set (group_nodes_of g node) \<longrightarrow> x \<in> set new)" by (rule a')
    show "\<forall>m\<in>set new.
        (\<forall>gr. node_getGroup g m = Some gr \<longrightarrow> gr \<in> set new) \<and>
        (\<forall>x. Some x \<in> set (in_nodes_of g m) \<longrightarrow> x \<in> set new) \<and>
        (collectGroup \<and> node_isGroup g m \<longrightarrow>
           (\<forall>x. Some x \<in> set (group_nodes_of g m) \<longrightarrow> x \<in> set new))" by (rule b)
  qed
qed

theorem collectAncestorsDfs_amended_witness:
  "collectAncestorsDfs ancestors_graph 1 False = Some [2, 3] \<and>
   ancestors_starts ancestors_graph False 1 = [Some 2] \<and>
   first_visit_order (ancestors_succs ancestors_graph False) [Some 2] {} [2, 3] \<and>
   {y. (2, y) \<in> (edges (ancestors_succs ancestors_graph False))\<^sup>*} = {2, 3} \<and>
   node_getGroup ancestors_graph 2 = Some 3"
proof -
  have a: "ancestors_starts ancestors_graph False 1 = [Some 2]"
    by (simp add: ancestors_starts_def in_nodes_of_def lookup_node_def lock_def
        ancestors_graph_def empty_graph_def plain_node_def)
  have b: "node_getGroup ancestors_graph 2 = Some 3"
    by (simp add: node_getGroup_def lookup_node_def lock_def ancestors_graph_def
        empty_graph_def plain_node_def)
  have e: "collectAncestorsDfs_state ancestors_graph 1 False = Some ({2, 3}, [2, 3])"
    by (simp add: collectAncestorsDfs_state_def dfs_depth_def
        node_getGroup_def node_isGroup_def in_nodes_of_def lookup_node_def lock_def
        ancestors_graph_def empty_graph_def plain_node_def insert_commute)
  have o: "collectAncestorsDfs ancestors_graph 1 False = Some [2, 3]"
    unfolding collectAncestorsDfs_def e by simp
  note p = ex_conj_SomeD [OF collectAncestorsDfs_amended [of ancestors_graph 1 False] o]
  have 1: "first_visit_order (ancestors_succs ancestors_graph False) [Some 2] {} [2, 3]"
    using p [THEN conjunct2, THEN conjunct2, THEN conjunct2, THEN conjunct1] unfolding a .
  have "set [2, 3 :: nat] =
       {y. \<exists>x. Some x \<in> set [Some 2] \<and>
              (x, y) \<in> (edges (ancestors_succs ancestors_graph False))\<^sup>*}"
    using p [THEN conjunct2, THEN conjunct2, THEN conjunct1] unfolding a .
  then have 2: "{y. (2, y) \<in> (edges (ancestors_succs ancestors_graph False))\<^sup>*} = {2, 3}"
    by simp
  show ?thesis
    using o a 1 2 b by (intro conjI)
qed

text \<open>
  The claim as stated fails at a grouped start node: the node 20 of \<open>group_graph\<close> is
  in the group 10, and the group is not in the output.
\<close>

theorem collectAncestorsDfs_start_group:
  "node_getGroup group_graph 20 = Some 10 \<and> collectAncestorsDfs group_graph 20 True = Some []"
  by (simp add: collectAncestorsDfs_def collectAncestorsDfs_state_def node_getGroup_def
      node_isGroup_def in_nodes_of_def lookup_node_def lock_def group_graph_def empty_graph_def
      plain_node_def)

end
